theory Spec2Isabelle
  imports Complex_Main "HOL-Library.Log_Nat"
begin

section \<open>BFT-MV-DID: the multi-view reconciliation simulator\<close>

text \<open>
  A shallow embedding of \<^verbatim>\<open>simulations/bft_mv_did_protocol.py\<close>. Python objects are
  records, mutation is explicit state passing, every exception the code can raise is a
  value of \<open>error\<close>. The two sources of non-determinism of the program are made
  explicit in a \<open>world\<close> that is threaded through every call: the stream of numbers
  the module \<^verbatim>\<open>random\<close> draws from, and the stream of readings of \<^verbatim>\<open>time.time()\<close>.
  A finite float is modelled by the real number it denotes. The arithmetic that decides
  which configurations the experiment driver runs rounds to binary64; timestamps and
  reported averages, on which no branch depends, are kept exact. The hash
  \<^verbatim>\<open>hashlib.sha256\<close> is a library function that is not part of the repository; it is a
  parameter \<open>H\<close> of everything that hashes.
\<close>

subsection \<open>Errors and the outside world\<close>

datatype error = ValueError | AttributeError | IndexError | ZeroDivisionError | TypeError
  | OverflowError

record world =
  rand_src :: "nat \<Rightarrow> nat"
  time_src :: "nat \<Rightarrow> real"

definition rand_draw :: "world \<Rightarrow> nat \<times> world" where
  "rand_draw w = (rand_src w 0, w\<lparr>rand_src := (\<lambda>i. rand_src w (Suc i))\<rparr>)"

definition time_time :: "world \<Rightarrow> real \<times> world" where
  "time_time w = (time_src w 0, w\<lparr>time_src := (\<lambda>i. time_src w (Suc i))\<rparr>)"

text \<open>\<^verbatim>\<open>random.randint(a, b)\<close>, only ever called with literal bounds \<open>a \<le> b\<close>.\<close>

definition randint :: "int \<Rightarrow> int \<Rightarrow> world \<Rightarrow> int \<times> world" where
  "randint a b w = (case rand_draw w of (r, w') \<Rightarrow> (a + int r mod (b - a + 1), w'))"

text \<open>\<^verbatim>\<open>random.uniform(a, b)\<close> is \<^verbatim>\<open>a + (b - a) * random()\<close>, and \<^verbatim>\<open>random()\<close> is a
  53-bit integer divided by \<open>2 ^ 53\<close>.\<close>

definition uniform :: "real \<Rightarrow> real \<Rightarrow> world \<Rightarrow> real \<times> world" where
  "uniform a b w =
     (case rand_draw w of (r, w') \<Rightarrow>
        (a + (b - a) * (real_of_int (int r mod 2 ^ 53) / 2 ^ 53), w'))"

text \<open>
  \<^verbatim>\<open>random.sample(population, k)\<close>: \<open>k\<close> distinct positions of the population, in the
  order drawn. Each draw picks one of the elements that are left. Every list the
  library function can return is the result for some stream of draws, and every stream
  gives such a list. Outside \<open>0 \<le> k \<le> len(population)\<close> the library raises ValueError.
\<close>

fun sample_from :: "'a list \<Rightarrow> nat \<Rightarrow> world \<Rightarrow> 'a list \<times> world" where
  "sample_from xs 0 w = ([], w)"
| "sample_from [] (Suc k) w = ([], w)"
| "sample_from (x # xs) (Suc k) w =
     (case rand_draw w of (r, w1) \<Rightarrow>
        (let i = r mod length (x # xs) in
         case sample_from (take i (x # xs) @ drop (Suc i) (x # xs)) k w1 of
           (ys, w2) \<Rightarrow> ((x # xs) ! i # ys, w2)))"

definition random_sample :: "'a list \<Rightarrow> int \<Rightarrow> world \<Rightarrow> error + ('a list \<times> world)" where
  "random_sample population k w =
     (if 0 \<le> k \<and> k \<le> int (length population)
      then Inr (sample_from population (nat k) w) else Inl ValueError)"

text \<open>\<^verbatim>\<open>range(n)\<close> as a list, and \<^verbatim>\<open>xs[i]\<close> with Python's negative indices.\<close>

definition py_range :: "int \<Rightarrow> int list" where
  "py_range n = [0..n - 1]"

definition py_index :: "'a list \<Rightarrow> int \<Rightarrow> error + nat" where
  "py_index xs i =
     (if 0 \<le> i \<and> i < int (length xs) then Inr (nat i)
      else if i < 0 \<and> - int (length xs) \<le> i then Inr (nat (int (length xs) + i))
      else Inl IndexError)"

text \<open>\<^verbatim>\<open>str(i)\<close> of an integer, as the f-strings of the source format it.\<close>

fun str_nat :: "nat \<Rightarrow> string" where
  "str_nat n =
     (if n < 10 then [''0123456789'' ! n]
      else str_nat (n div 10) @ [''0123456789'' ! (n mod 10)])"

definition py_str :: "int \<Rightarrow> string" where
  "py_str i = (if i < 0 then ''-'' @ str_nat (nat (- i)) else str_nat (nat i))"

subsection \<open>The data model\<close>

datatype AgentType = HONEST | BYZANTINE

record DIDView =
  did :: string
  version :: int
  doc_hash :: string
  timestamp :: real

text \<open>\<^verbatim>\<open>DIDView.__eq__\<close>; \<^verbatim>\<open>!=\<close> is its negation.\<close>

definition view_eq :: "DIDView \<Rightarrow> DIDView \<Rightarrow> bool" where
  "view_eq a b \<longleftrightarrow> did a = did b \<and> version a = version b \<and> doc_hash a = doc_hash b"

text \<open>\<^verbatim>\<open>local_view != ledger_view\<close> where the left side is an \<^verbatim>\<open>Optional[DIDView]\<close>:
  \<^verbatim>\<open>None\<close> differs from every view.\<close>

definition view_ne :: "DIDView option \<Rightarrow> DIDView \<Rightarrow> bool" where
  "view_ne a b = (case a of None \<Rightarrow> True | Some v \<Rightarrow> \<not> view_eq v b)"

record Agent =
  agent_id :: int
  agent_type :: AgentType
  local_view :: "DIDView option"
  peers :: "int list"
  messages_sent :: int
  messages_received :: int
  ledger_queries :: int

definition is_byzantine :: "Agent \<Rightarrow> bool" where
  "is_byzantine a \<longleftrightarrow> agent_type a = BYZANTINE"

record Message =
  sender :: int
  receiver :: int
  msg_type :: string
  view :: "DIDView option"
  operations :: "(string \<times> string) list list"
  msg_round_num :: int

record Network =
  n_agents :: int
  f_byzantine :: int
  fanout :: int
  net_did :: string
  agents :: "Agent list"
  ledger_view :: DIDView
  round_num :: int
  total_messages :: int
  total_ledger_queries :: int
  convergence_round :: "int option"

subsection \<open>Construction\<close>

text \<open>The loop of \<^verbatim>\<open>_initialize_views\<close> over the agents.\<close>

fun initialize_views ::
  "(string \<Rightarrow> string) \<Rightarrow> string \<Rightarrow> Agent list \<Rightarrow> world \<Rightarrow> Agent list \<times> world" where
  "initialize_views H d [] w = ([], w)"
| "initialize_views H d (a # rest) w =
     (if is_byzantine a then
        (case randint 5 15 w of (v, w1) \<Rightarrow>
         case time_time w1 of (t, w2) \<Rightarrow>
         case initialize_views H d rest w2 of (rest', w3) \<Rightarrow>
           (a\<lparr>local_view := Some \<lparr>did = d, version = v,
                 doc_hash = H (''fake_doc_'' @ py_str (agent_id a)), timestamp = t\<rparr>\<rparr> # rest', w3))
      else
        (case randint 5 9 w of (stale_version, w1) \<Rightarrow>
         case time_time w1 of (t, w2) \<Rightarrow>
         case uniform 10 100 w2 of (u, w3) \<Rightarrow>
         case initialize_views H d rest w3 of (rest', w4) \<Rightarrow>
           (a\<lparr>local_view := Some \<lparr>did = d, version = stale_version,
                 doc_hash = H (''ledger_doc_v'' @ py_str stale_version),
                 timestamp = t - u\<rparr>\<rparr> # rest', w4)))"

text \<open>\<^verbatim>\<open>BFTMVDIDNetwork.__init__\<close>.\<close>

definition init ::
  "(string \<Rightarrow> string) \<Rightarrow> int \<Rightarrow> int \<Rightarrow> int \<Rightarrow> string \<Rightarrow> world \<Rightarrow> error + (Network \<times> world)" where
  "init H n f k d w =
     (case random_sample (py_range n) f w of
        Inl e \<Rightarrow> Inl e
      | Inr (byzantine_ids, w1) \<Rightarrow>
         (let fresh = map (\<lambda>i. \<lparr>agent_id = i,
                  agent_type = (if i \<in> set byzantine_ids then BYZANTINE else HONEST),
                  local_view = None, peers = [], messages_sent = 0,
                  messages_received = 0, ledger_queries = 0\<rparr>) (py_range n)
          in case time_time w1 of (t, w2) \<Rightarrow>
             case initialize_views H d fresh w2 of (ags, w3) \<Rightarrow>
               Inr (\<lparr>n_agents = n, f_byzantine = f, fanout = min k (n - 1), net_did = d,
                     agents = ags,
                     ledger_view = \<lparr>did = d, version = 10,
                        doc_hash = H ''ledger_doc_v10'', timestamp = t\<rparr>,
                     round_num = 0, total_messages = 0, total_ledger_queries = 0,
                     convergence_round = None\<rparr>, w3)))"

subsection \<open>One round\<close>

definition select_peers :: "Network \<Rightarrow> int \<Rightarrow> world \<Rightarrow> error + (int list \<times> world)" where
  "select_peers net aid w =
     (let all_others = filter (\<lambda>i. i \<noteq> aid) (py_range (n_agents net))
      in random_sample all_others (min (fanout net) (int (length all_others))) w)"

definition honest_agent_summary :: "Network \<Rightarrow> Agent \<Rightarrow> Message" where
  "honest_agent_summary net a =
     \<lparr>sender = agent_id a, receiver = - 1, msg_type = ''SUMMARY'', view = local_view a,
      operations = [], msg_round_num = round_num net\<rparr>"

definition byzantine_agent_summary ::
  "(string \<Rightarrow> string) \<Rightarrow> Network \<Rightarrow> Agent \<Rightarrow> world \<Rightarrow> Message \<times> world" where
  "byzantine_agent_summary H net a w =
     (case randint 8 20 w of (v, w1) \<Rightarrow>
      case randint 0 100 w1 of (salt, w2) \<Rightarrow>
      case time_time w2 of (t, w3) \<Rightarrow>
        (\<lparr>sender = agent_id a, receiver = - 1, msg_type = ''SUMMARY'',
          view = Some \<lparr>did = net_did net, version = v,
                       doc_hash = H (''byzantine_'' @ py_str salt), timestamp = t\<rparr>,
          operations = [], msg_round_num = round_num net\<rparr>, w3))"

text \<open>\<^verbatim>\<open>_handle_summary\<close>. The receiver object is mutated in place; the model returns it
  together with the network, whose query total is the only field the method touches.\<close>

definition handle_summary ::
  "Network \<Rightarrow> Agent \<Rightarrow> Message \<Rightarrow> world \<Rightarrow> error + (Agent \<times> Network \<times> world)" where
  "handle_summary net rcv summary w =
     (let r1 = rcv\<lparr>messages_received := messages_received rcv + 1\<rparr> in
      if is_byzantine r1 then Inr (r1, net, w)
      else case view summary of
        None \<Rightarrow> Inl AttributeError
      | Some sender_view \<Rightarrow>
         (case local_view r1 of
            None \<Rightarrow> Inl AttributeError
          | Some lv \<Rightarrow>
             if version sender_view > version lv then
               (case time_time w of (t, w') \<Rightarrow>
                  Inr (r1\<lparr>ledger_queries := ledger_queries r1 + 1,
                          local_view := Some \<lparr>did = did (ledger_view net),
                             version = version (ledger_view net),
                             doc_hash = doc_hash (ledger_view net), timestamp = t\<rparr>\<rparr>,
                       net\<lparr>total_ledger_queries := total_ledger_queries net + 1\<rparr>, w'))
             else if version sender_view = version lv then
               (if doc_hash sender_view \<noteq> doc_hash lv then
                  (case time_time w of (t, w') \<Rightarrow>
                     Inr (r1\<lparr>ledger_queries := ledger_queries r1 + 1,
                             local_view := Some \<lparr>did = did (ledger_view net),
                                version = version (ledger_view net),
                                doc_hash = doc_hash (ledger_view net), timestamp = t\<rparr>\<rparr>,
                          net\<lparr>total_ledger_queries := total_ledger_queries net + 1\<rparr>, w'))
                else Inr (r1, net, w))
             else Inr (r1, net, w)))"

text \<open>The inner loop of phase 1: one copy of the summary per selected peer.\<close>

definition msg_copy :: "Message \<Rightarrow> int \<Rightarrow> Message" where
  "msg_copy msg peer_id =
     \<lparr>sender = sender msg, receiver = peer_id, msg_type = msg_type msg, view = view msg,
      operations = [], msg_round_num = msg_round_num msg\<rparr>"

fun send_loop ::
  "Message \<Rightarrow> int list \<Rightarrow> Agent \<times> Message list \<times> int \<Rightarrow> Agent \<times> Message list \<times> int" where
  "send_loop msg [] st = st"
| "send_loop msg (peer_id # ps) (a, round_messages, tm) =
     send_loop msg ps
       (a\<lparr>messages_sent := messages_sent a + 1\<rparr>, round_messages @ [msg_copy msg peer_id],
        tm + 1)"

text \<open>The outer loop of phase 1 over the agents; the state is the list of messages of
  the round, the network's message total and the world.\<close>

fun emit_loop ::
  "(string \<Rightarrow> string) \<Rightarrow> Network \<Rightarrow> Agent list \<Rightarrow> Message list \<times> int \<times> world \<Rightarrow>
     error + (Agent list \<times> Message list \<times> int \<times> world)" where
  "emit_loop H net [] st = Inr ([], st)"
| "emit_loop H net (a # rest) (round_messages, tm, w) =
     (case select_peers net (agent_id a) w of
        Inl e \<Rightarrow> Inl e
      | Inr (ps, w1) \<Rightarrow>
         (let a1 = a\<lparr>peers := ps\<rparr> in
          case (if is_byzantine a1 then byzantine_agent_summary H net a1 w1
                else (honest_agent_summary net a1, w1)) of
            (msg, w2) \<Rightarrow>
              (case send_loop msg ps (a1, round_messages, tm) of
                 (a2, rm2, tm2) \<Rightarrow>
                   (case emit_loop H net rest (rm2, tm2, w2) of
                      Inl e \<Rightarrow> Inl e
                    | Inr (rest', st') \<Rightarrow> Inr (a2 # rest', st')))))"

text \<open>Phase 2: every message of the round is handled by \<^verbatim>\<open>self.agents[msg.receiver]\<close>.\<close>

fun deliver_loop :: "Message list \<Rightarrow> Network \<times> world \<Rightarrow> error + (Network \<times> world)" where
  "deliver_loop [] st = Inr st"
| "deliver_loop (msg # ms) (net, w) =
     (case py_index (agents net) (receiver msg) of
        Inl e \<Rightarrow> Inl e
      | Inr i \<Rightarrow>
         (case handle_summary net (agents net ! i) msg w of
            Inl e \<Rightarrow> Inl e
          | Inr (r', net', w') \<Rightarrow>
              deliver_loop ms (net'\<lparr>agents := (agents net')[i := r']\<rparr>, w')))"

definition check_convergence :: "Network \<Rightarrow> bool \<times> Network" where
  "check_convergence net =
     (let honest_agents = filter (\<lambda>a. \<not> is_byzantine a) (agents net) in
      if list_ex (\<lambda>a. view_ne (local_view a) (ledger_view net)) honest_agents
      then (False, net)
      else (True, if convergence_round net = None
                  then net\<lparr>convergence_round := Some (round_num net)\<rparr> else net))"

text \<open>Phase 1 of \<^verbatim>\<open>run_round\<close> on its own: the network after every agent has sent,
  and the messages of the round.\<close>

definition emit_phase ::
  "(string \<Rightarrow> string) \<Rightarrow> Network \<Rightarrow> world \<Rightarrow> error + (Network \<times> Message list \<times> world)" where
  "emit_phase H net w =
     (let net1 = net\<lparr>round_num := round_num net + 1\<rparr> in
      case emit_loop H net1 (agents net1) ([], total_messages net1, w) of
        Inl e \<Rightarrow> Inl e
      | Inr (ags, round_messages, tm, w1) \<Rightarrow>
          Inr (net1\<lparr>agents := ags, total_messages := tm\<rparr>, round_messages, w1))"

definition run_round ::
  "(string \<Rightarrow> string) \<Rightarrow> Network \<Rightarrow> world \<Rightarrow> error + (bool \<times> Network \<times> world)" where
  "run_round H net w =
     (case emit_phase H net w of
        Inl e \<Rightarrow> Inl e
      | Inr (net2, round_messages, w1) \<Rightarrow>
         (case deliver_loop round_messages (net2, w1) of
            Inl e \<Rightarrow> Inl e
          | Inr (net3, w2) \<Rightarrow>
             (case check_convergence net3 of (c, net4) \<Rightarrow> Inr (c, net4, w2))))"

subsection \<open>Running to convergence\<close>

record Stats =
  stat_n_agents :: int
  stat_f_byzantine :: int
  stat_fanout :: int
  rounds :: int
  converged :: bool
  stat_convergence_round :: "int option"
  stat_total_messages :: int
  stat_total_ledger_queries :: int
  avg_messages_per_agent :: real
  avg_ledger_queries_per_agent :: real
  honest_agents :: int
  byzantine_agents :: int
  trial :: "int option"

text \<open>\<^verbatim>\<open>get_statistics\<close>; the two averages divide by \<^verbatim>\<open>self.n_agents\<close>. An average is
  kept as the exact quotient, of which the program stores the nearest double; nothing the
  program does afterwards depends on its value.\<close>

definition get_statistics :: "Network \<Rightarrow> error + Stats" where
  "get_statistics net =
     (let honest = filter (\<lambda>a. \<not> is_byzantine a) (agents net) in
      if n_agents net = 0 then Inl ZeroDivisionError
      else Inr \<lparr>stat_n_agents = n_agents net, stat_f_byzantine = f_byzantine net,
                stat_fanout = fanout net, rounds = round_num net,
                converged = (convergence_round net \<noteq> None),
                stat_convergence_round = convergence_round net,
                stat_total_messages = total_messages net,
                stat_total_ledger_queries = total_ledger_queries net,
                avg_messages_per_agent =
                  real_of_int (total_messages net) / real_of_int (n_agents net),
                avg_ledger_queries_per_agent =
                  real_of_int (total_ledger_queries net) / real_of_int (n_agents net),
                honest_agents = int (length honest),
                byzantine_agents = f_byzantine net, trial = None\<rparr>)"

text \<open>The loop of \<^verbatim>\<open>run_until_convergence\<close>: at most so many rounds, leaving at the
  first round that reports convergence.\<close>

fun round_loop ::
  "(string \<Rightarrow> string) \<Rightarrow> nat \<Rightarrow> Network \<Rightarrow> world \<Rightarrow> error + (Network \<times> world)" where
  "round_loop H 0 net w = Inr (net, w)"
| "round_loop H (Suc k) net w =
     (case run_round H net w of
        Inl e \<Rightarrow> Inl e
      | Inr (c, net', w') \<Rightarrow> if c then Inr (net', w') else round_loop H k net' w')"

definition run_until_convergence ::
  "(string \<Rightarrow> string) \<Rightarrow> Network \<Rightarrow> int \<Rightarrow> world \<Rightarrow> error + (Stats \<times> Network \<times> world)" where
  "run_until_convergence H net max_rounds w =
     (case round_loop H (nat max_rounds) net w of
        Inl e \<Rightarrow> Inl e
      | Inr (net', w') \<Rightarrow>
         (case get_statistics net' of
            Inl e \<Rightarrow> Inl e
          | Inr stats \<Rightarrow> Inr (stats, net', w')))"

text \<open>A fixed number of rounds, whatever the convergence check says: the iteration the
  per-round properties are stated with.\<close>

fun run_rounds ::
  "(string \<Rightarrow> string) \<Rightarrow> nat \<Rightarrow> Network \<Rightarrow> world \<Rightarrow> error + (Network \<times> world)" where
  "run_rounds H 0 net w = Inr (net, w)"
| "run_rounds H (Suc r) net w =
     (case run_round H net w of
        Inl e \<Rightarrow> Inl e
      | Inr (c, net', w') \<Rightarrow> run_rounds H r net' w')"

subsection \<open>The experiment driver\<close>

record Result =
  res_n :: int
  res_f :: int
  res_f_ratio :: real
  res_fanout :: int
  res_trials :: int
  convergence_rate :: real
  avg_convergence_round :: "real option"
  avg_total_messages :: real
  avg_ledger_queries :: real
  trial_results :: "Stats list"

text \<open>\<^verbatim>\<open>int(x)\<close> of a float truncates towards zero.\<close>

definition py_int :: "real \<Rightarrow> int" where
  "py_int x = (if 0 \<le> x then \<lfloor>x\<rfloor> else \<lceil>x\<rceil>)"

text \<open>
  A Python \<^verbatim>\<open>float\<close> is an IEEE 754 binary64 number. A finite float is modelled by the real
  number it denotes. An arithmetic operation returns the exact result rounded to the
  nearest double, ties going to the even significand: a significand of 53 bits, scaled by
  a power of two that is the exponent of the binade of the result less 52, and not below
  \<open>- 1074\<close> (the subnormal range). \<open>bitlen\<close> is \<^verbatim>\<open>int.bit_length\<close>.
\<close>

definition pow2 :: "int \<Rightarrow> real" where
  "pow2 e = (if 0 \<le> e then 2 ^ nat e else 1 / 2 ^ nat (- e))"

definition ilog2 :: "real \<Rightarrow> int" where
  "ilog2 x = (if 1 \<le> x then bitlen \<lfloor>x\<rfloor> - 1 else - bitlen (\<lceil>1 / x\<rceil> - 1))"

definition round_half_even :: "real \<Rightarrow> int" where
  "round_half_even y =
     (let fl = \<lfloor>y\<rfloor>; d = y - real_of_int fl in
      if d < 1 / 2 then fl else if 1 / 2 < d then fl + 1
      else if even fl then fl else fl + 1)"

definition round_double :: "real \<Rightarrow> real" where
  "round_double x =
     (if x = 0 then 0
      else (let e = max (ilog2 \<bar>x\<bar> - 52) (- 1074)
            in real_of_int (round_half_even (x / pow2 e)) * pow2 e))"

text \<open>A result of magnitude \<open>2 ^ 1024\<close> or more is beyond the doubles. \<^verbatim>\<open>float(n)\<close> of an
  int and the division of two ints then raise OverflowError; a product of floats becomes
  an infinity, of which \<^verbatim>\<open>int\<close> raises OverflowError, which is all the driver does with
  its one product.\<close>

definition to_double :: "real \<Rightarrow> error + real" where
  "to_double x =
     (let y = round_double x in if \<bar>y\<bar> < 2 ^ 1024 then Inr y else Inl OverflowError)"

definition float_of_int :: "int \<Rightarrow> error + real" where
  "float_of_int n = to_double (real_of_int n)"

definition float_mul :: "real \<Rightarrow> real \<Rightarrow> error + real" where
  "float_mul a b = to_double (a * b)"

definition py_truediv :: "int \<Rightarrow> int \<Rightarrow> error + real" where
  "py_truediv a b =
     (if b = 0 then Inl ZeroDivisionError else to_double (real_of_int a / real_of_int b))"

text \<open>Line 318, \<^verbatim>\<open>f = int(n * f_ratio)\<close>: the int is converted to a float, the product of
  the two floats is rounded, and the result is truncated. Line 321, \<^verbatim>\<open>f >= n / 3\<close>: the
  quotient of the two ints is rounded to a double, with which Python compares the int
  exactly.\<close>

definition byzantine_count :: "int \<Rightarrow> real \<Rightarrow> error + int" where
  "byzantine_count n f_ratio =
     (case float_of_int n of
        Inl e \<Rightarrow> Inl e
      | Inr nd \<Rightarrow>
         (case float_mul nd f_ratio of
            Inl e \<Rightarrow> Inl e
          | Inr p \<Rightarrow> Inr (py_int p)))"

definition beyond_bound :: "int \<Rightarrow> int \<Rightarrow> error + bool" where
  "beyond_bound f n =
     (case py_truediv n 3 of
        Inl e \<Rightarrow> Inl e
      | Inr q \<Rightarrow> Inr (q \<le> real_of_int f))"

text \<open>The trials of one configuration, each on a fresh network.\<close>

fun trial_loop ::
  "(string \<Rightarrow> string) \<Rightarrow> int \<Rightarrow> int \<Rightarrow> int \<Rightarrow> int list \<Rightarrow> Stats list \<times> world \<Rightarrow>
     error + (Stats list \<times> world)" where
  "trial_loop H n f k [] st = Inr st"
| "trial_loop H n f k (t # ts) (trs, w) =
     (case init H n f k ''did:example:123'' w of
        Inl e \<Rightarrow> Inl e
      | Inr (network, w1) \<Rightarrow>
         (case run_until_convergence H network 50 w1 of
            Inl e \<Rightarrow> Inl e
          | Inr (stats, network', w2) \<Rightarrow>
              trial_loop H n f k ts (trs @ [stats\<lparr>trial := Some t\<rparr>], w2)))"

text \<open>\<^verbatim>\<open>sum(r['convergence_round'] for r in trial_results if r['converged'])\<close>; adding
  \<^verbatim>\<open>None\<close> to a number is a TypeError.\<close>

fun sum_convergence_rounds :: "Stats list \<Rightarrow> int \<Rightarrow> error + int" where
  "sum_convergence_rounds [] acc = Inr acc"
| "sum_convergence_rounds (r # rs) acc =
     (if converged r then
        (case stat_convergence_round r of
           None \<Rightarrow> Inl TypeError
         | Some c \<Rightarrow> sum_convergence_rounds rs (acc + c))
      else sum_convergence_rounds rs acc)"

text \<open>The aggregation of one configuration: lines 338 to 354 of the source. Python's
  \<^verbatim>\<open>/\<close> raises ZeroDivisionError on a zero divisor, also between two ints. The test
  \<^verbatim>\<open>avg_convergence == avg_convergence\<close> is false for NaN only, and no float that a
  division of two ints returns is NaN. The means are kept as exact quotients, as in
  \<^verbatim>\<open>get_statistics\<close>.\<close>

definition aggregate ::
  "int \<Rightarrow> int \<Rightarrow> real \<Rightarrow> int \<Rightarrow> int \<Rightarrow> Stats list \<Rightarrow> error + Result" where
  "aggregate n f f_ratio k trials trs =
     (case sum_convergence_rounds trs 0 of
        Inl e \<Rightarrow> Inl e
      | Inr s \<Rightarrow>
         if length (filter converged trs) = 0 then Inl ZeroDivisionError
         else
           (let avg_convergence = real_of_int s / real (length (filter converged trs)) in
            if trials = 0 then Inl ZeroDivisionError
            else Inr \<lparr>res_n = n, res_f = f, res_f_ratio = f_ratio, res_fanout = k,
                      res_trials = trials,
                      convergence_rate =
                        real (length (filter converged trs)) / real_of_int trials,
                      avg_convergence_round =
                        (if avg_convergence = avg_convergence then Some avg_convergence
                         else None),
                      avg_total_messages =
                        real_of_int (sum_list (map stat_total_messages trs)) / real_of_int trials,
                      avg_ledger_queries =
                        real_of_int (sum_list (map stat_total_ledger_queries trs))
                          / real_of_int trials,
                      trial_results = trs\<rparr>))"

text \<open>The body of the inner loop of \<^verbatim>\<open>run_experiment\<close> for one pair: the record it
  appends, if any. The \<^verbatim>\<open>print\<close> is not modelled.\<close>

definition run_config ::
  "(string \<Rightarrow> string) \<Rightarrow> int \<Rightarrow> real \<Rightarrow> int \<Rightarrow> int \<Rightarrow> world \<Rightarrow>
     error + (Result option \<times> world)" where
  "run_config H n f_ratio k trials w =
     (case byzantine_count n f_ratio of
        Inl e \<Rightarrow> Inl e
      | Inr f \<Rightarrow>
         (case beyond_bound f n of
            Inl e \<Rightarrow> Inl e
          | Inr skip \<Rightarrow>
             if skip then Inr (None, w)
             else
               (case trial_loop H n f k (py_range trials) ([], w) of
                  Inl e \<Rightarrow> Inl e
                | Inr (trs, w1) \<Rightarrow>
                   (case aggregate n f f_ratio k trials trs of
                      Inl e \<Rightarrow> Inl e
                    | Inr result \<Rightarrow> Inr (Some result, w1)))))"

fun ratio_loop ::
  "(string \<Rightarrow> string) \<Rightarrow> int \<Rightarrow> real list \<Rightarrow> int \<Rightarrow> int \<Rightarrow> Result list \<times> world \<Rightarrow>
     error + (Result list \<times> world)" where
  "ratio_loop H n [] k trials st = Inr st"
| "ratio_loop H n (f_ratio # rest) k trials (results, w) =
     (case run_config H n f_ratio k trials w of
        Inl e \<Rightarrow> Inl e
      | Inr (None, w1) \<Rightarrow> ratio_loop H n rest k trials (results, w1)
      | Inr (Some result, w1) \<Rightarrow> ratio_loop H n rest k trials (results @ [result], w1))"

fun n_loop ::
  "(string \<Rightarrow> string) \<Rightarrow> int list \<Rightarrow> real list \<Rightarrow> int \<Rightarrow> int \<Rightarrow> Result list \<times> world \<Rightarrow>
     error + (Result list \<times> world)" where
  "n_loop H [] f_ratios k trials st = Inr st"
| "n_loop H (n # rest) f_ratios k trials st =
     (case ratio_loop H n f_ratios k trials st of
        Inl e \<Rightarrow> Inl e
      | Inr st' \<Rightarrow> n_loop H rest f_ratios k trials st')"

definition run_experiment ::
  "(string \<Rightarrow> string) \<Rightarrow> int list \<Rightarrow> real list \<Rightarrow> int \<Rightarrow> int \<Rightarrow> world \<Rightarrow>
     error + (Result list \<times> world)" where
  "run_experiment H n_values f_ratios k trials w = n_loop H n_values f_ratios k trials ([], w)"

section \<open>Relations between the states of a session\<close>

text \<open>What a step may do to one agent, whatever it is sent: identity and role stay, and
  the local view either stays or, for an honest agent, becomes a view equal to the ledger's.\<close>

definition adopts :: "DIDView \<Rightarrow> Agent \<Rightarrow> Agent \<Rightarrow> bool" where
  "adopts L a a' \<longleftrightarrow>
     agent_id a' = agent_id a \<and> agent_type a' = agent_type a \<and>
     (local_view a' = local_view a \<or>
      (\<not> is_byzantine a \<and> (\<exists>v. local_view a' = Some v \<and> view_eq v L)))"

text \<open>The fields of the session that delivery leaves alone.\<close>

definition frame :: "Network \<Rightarrow> Network \<Rightarrow> bool" where
  "frame net net' \<longleftrightarrow>
     n_agents net' = n_agents net \<and> f_byzantine net' = f_byzantine net \<and>
     fanout net' = fanout net \<and> net_did net' = net_did net \<and>
     ledger_view net' = ledger_view net \<and> round_num net' = round_num net \<and>
     total_messages net' = total_messages net \<and>
     convergence_round net' = convergence_round net"

text \<open>The agents are numbered as the constructor numbers them, and the fanout is capped.\<close>

definition ids_ok :: "Network \<Rightarrow> bool" where
  "ids_ok net \<longleftrightarrow>
     map agent_id (agents net) = py_range (n_agents net) \<and> fanout net \<le> n_agents net - 1"

text \<open>Every agent holds a view, and an agent that has peers to choose can choose them.\<close>

definition runnable :: "Network \<Rightarrow> bool" where
  "runnable net \<longleftrightarrow>
     ids_ok net \<and> (\<forall>a \<in> set (agents net). local_view a \<noteq> None) \<and>
     (0 \<le> fanout net \<or> agents net = [])"

text \<open>Every honest agent holds a view equal to the ledger's: what the convergence check tests.\<close>

definition all_honest_at_ledger :: "Network \<Rightarrow> bool" where
  "all_honest_at_ledger net \<longleftrightarrow>
     (\<forall>a \<in> set (agents net). \<not> is_byzantine a \<longrightarrow> \<not> view_ne (local_view a) (ledger_view net))"

text \<open>A session of one honest agent that is not at the ledger view and has nobody to
  talk to: the state every trial of the configuration \<open>n = 1\<close> starts in.\<close>

definition lonely :: "Network \<Rightarrow> bool" where
  "lonely net \<longleftrightarrow>
     n_agents net = 1 \<and> fanout net = 0 \<and> convergence_round net = None \<and>
     (\<exists>a. agents net = [a] \<and> agent_id a = 0 \<and> \<not> is_byzantine a \<and>
          view_ne (local_view a) (ledger_view net))"

section \<open>Concrete sessions\<close>

text \<open>A stand-in for the hash and a world whose draws never repeat, for the runs below.\<close>

definition demo_hash :: "string \<Rightarrow> string" where
  "demo_hash s = take 16 s"

definition demo_world :: world where
  "demo_world = \<lparr>rand_src = (\<lambda>i. i), time_src = (\<lambda>i. 1000 + real i)\<rparr>"

definition ex_ledger :: DIDView where
  "ex_ledger = \<lparr>did = ''did:example:123'', version = 10, doc_hash = ''ledger_doc_v10'',
                 timestamp = 990\<rparr>"

definition ex_stale_view :: DIDView where
  "ex_stale_view = \<lparr>did = ''did:example:123'', version = 7, doc_hash = ''ledger_doc_v7'',
                     timestamp = 950\<rparr>"

definition ex_lie_view :: DIDView where
  "ex_lie_view = \<lparr>did = ''did:example:123'', version = 12, doc_hash = ''byzantine_3'',
                   timestamp = 995\<rparr>"

definition ex_byz :: Agent where
  "ex_byz = \<lparr>agent_id = 0, agent_type = BYZANTINE, local_view = Some ex_lie_view, peers = [],
              messages_sent = 0, messages_received = 0, ledger_queries = 0\<rparr>"

definition ex_stale :: Agent where
  "ex_stale = \<lparr>agent_id = 1, agent_type = HONEST, local_view = Some ex_stale_view, peers = [],
                messages_sent = 0, messages_received = 0, ledger_queries = 0\<rparr>"

definition ex_fresh :: Agent where
  "ex_fresh = \<lparr>agent_id = 2, agent_type = HONEST, local_view = Some ex_ledger, peers = [],
                messages_sent = 0, messages_received = 0, ledger_queries = 0\<rparr>"

definition ex_net :: Network where
  "ex_net = \<lparr>n_agents = 3, f_byzantine = 1, fanout = 2, net_did = ''did:example:123'',
              agents = [ex_byz, ex_stale, ex_fresh], ledger_view = ex_ledger, round_num = 0,
              total_messages = 0, total_ledger_queries = 0, convergence_round = None\<rparr>"

definition ex_lie :: Message where
  "ex_lie = \<lparr>sender = 0, receiver = 1, msg_type = ''SUMMARY'', view = Some ex_lie_view,
              operations = [], msg_round_num = 1\<rparr>"

text \<open>Runs of the model on these inputs; each is shown below to return a result, so the
  error branch of the definition is never taken.\<close>

definition ex_round1 :: "bool \<times> Network \<times> world" where
  "ex_round1 = (case run_round demo_hash ex_net demo_world of
                  Inr r \<Rightarrow> r | Inl e \<Rightarrow> (False, ex_net, demo_world))"

definition ex_round2 :: "bool \<times> Network \<times> world" where
  "ex_round2 = (case run_round demo_hash (fst (snd ex_round1)) (snd (snd ex_round1)) of
                  Inr r \<Rightarrow> r | Inl e \<Rightarrow> ex_round1)"

definition ex_conv :: Network where
  "ex_conv = ex_net\<lparr>agents := [ex_byz, ex_stale\<lparr>local_view := Some ex_ledger\<rparr>, ex_fresh],
                    round_num := 3\<rparr>"


definition ex_init :: "Network \<times> world" where
  "ex_init = (case init demo_hash 3 1 5 ''did:example:123'' demo_world of
                Inr r \<Rightarrow> r | Inl e \<Rightarrow> (ex_net, demo_world))"

definition ex_two_rounds :: "Network \<times> world" where
  "ex_two_rounds = (case run_rounds demo_hash 2 (fst ex_init) (snd ex_init) of
                      Inr r \<Rightarrow> r | Inl e \<Rightarrow> ex_init)"

definition ex_emitted :: "Message list" where
  "ex_emitted = (case emit_phase demo_hash ex_net demo_world of
                   Inr (net2, round_messages, w1) \<Rightarrow> round_messages | Inl e \<Rightarrow> [])"

definition ex_conv_round :: "bool \<times> Network \<times> world" where
  "ex_conv_round = (case run_round demo_hash ex_conv demo_world of
                      Inr r \<Rightarrow> r | Inl e \<Rightarrow> (False, ex_conv, demo_world))"

definition ex_quiet :: Network where
  "ex_quiet = \<lparr>n_agents = 2, f_byzantine = 0, fanout = 1, net_did = ''did:example:123'',
                agents = [ex_fresh\<lparr>agent_id := 0\<rparr>, ex_fresh\<lparr>agent_id := 1\<rparr>],
                ledger_view = ex_ledger\<lparr>timestamp := 1234\<rparr>, round_num = 4,
                total_messages = 8, total_ledger_queries = 2, convergence_round = Some 2\<rparr>"

definition ex_quiet_round :: "bool \<times> Network \<times> world" where
  "ex_quiet_round = (case run_round demo_hash ex_quiet demo_world of
                       Inr r \<Rightarrow> r | Inl e \<Rightarrow> (False, ex_quiet, demo_world))"

definition ex_third_emitted :: "Message list" where
  "ex_third_emitted = (case emit_phase demo_hash (fst ex_two_rounds) (snd ex_two_rounds) of
                         Inr (net2, round_messages, w1) \<Rightarrow> round_messages | Inl e \<Rightarrow> [])"

definition ex_emitted2 :: "Message list" where
  "ex_emitted2 = (case emit_phase demo_hash (fst (snd ex_round1)) (snd (snd ex_round1)) of
                    Inr (net2, round_messages, w1) \<Rightarrow> round_messages | Inl e \<Rightarrow> [])"

definition ex_turn :: "int list \<times> world" where
  "ex_turn = (case select_peers ex_net 0 demo_world of Inr r \<Rightarrow> r | Inl e \<Rightarrow> ([], demo_world))"






section \<open>Properties\<close>

subsection \<open>Sampling and sending\<close>

lemma sample_from_Nil [simp]: "sample_from [] k w = ([], w)"
  by (cases k) simp_all

lemma sample_from_step:
  assumes "xs \<noteq> []"
  shows "fst (sample_from xs (Suc k) w) =
     xs ! (fst (rand_draw w) mod length xs) #
     fst (sample_from (take (fst (rand_draw w) mod length xs) xs @
                       drop (Suc (fst (rand_draw w) mod length xs)) xs) k (snd (rand_draw w)))"
proof -
  from assms obtain y ys where "xs = y # ys" by (cases xs) auto
  then show ?thesis
    by (simp add: Let_def split: prod.splits)
qed

lemma sample_from_length: "length (fst (sample_from xs k w)) = min k (length xs)"
proof (induction k arbitrary: xs w)
  case (Suc k)
  show ?case
  proof (cases "xs = []")
    case False
    define i where "i = fst (rand_draw w) mod length xs"
    have i: "i < length xs" using False by (simp add: i_def)
    then have "length (take i xs @ drop (Suc i) xs) = length xs - 1" by simp
    then have "length (fst (sample_from xs (Suc k) w)) = Suc (min k (length xs - 1))"
      unfolding sample_from_step [OF False] i_def [symmetric] by (simp add: Suc.IH)
    also have "\<dots> = min (Suc k) (length xs)" using i by simp
    finally show ?thesis .
  qed simp
qed simp

lemma sample_from_set: "set (fst (sample_from xs k w)) \<subseteq> set xs"
proof (induction k arbitrary: xs w)
  case (Suc k)
  show ?case
  proof (cases "xs = []")
    case False
    define i where "i = fst (rand_draw w) mod length xs"
    define rest where "rest = take i xs @ drop (Suc i) xs"
    have i: "i < length xs" using False by (simp add: i_def)
    have sub: "set rest \<subseteq> set xs"
      unfolding rest_def using set_take_subset [of i xs] set_drop_subset [of "Suc i" xs] by auto
    have ih: "set (fst (sample_from rest k (snd (rand_draw w)))) \<subseteq> set rest"
      by (rule Suc.IH)
    have "xs ! i \<in> set xs" using i by simp
    with ih sub show ?thesis
      unfolding sample_from_step [OF False] i_def [symmetric] rest_def [symmetric] by auto
  qed simp
qed simp

lemma sample_from_distinct: "distinct xs \<Longrightarrow> distinct (fst (sample_from xs k w))"
proof (induction k arbitrary: xs w)
  case (Suc k)
  show ?case
  proof (cases "xs = []")
    case False
    define i where "i = fst (rand_draw w) mod length xs"
    define rest where "rest = take i xs @ drop (Suc i) xs"
    have i: "i < length xs" using False by (simp add: i_def)
    have "xs = take i xs @ xs ! i # drop (Suc i) xs"
      using i by (rule id_take_nth_drop)
    then have "distinct (take i xs @ xs ! i # drop (Suc i) xs)"
      using Suc.prems by simp
    then have dr: "distinct rest" and notin: "xs ! i \<notin> set rest"
      by (auto simp: rest_def)
    have ih: "distinct (fst (sample_from rest k (snd (rand_draw w))))"
      using dr by (rule Suc.IH)
    have "set (fst (sample_from rest k (snd (rand_draw w)))) \<subseteq> set rest"
      by (rule sample_from_set)
    with notin ih show ?thesis
      unfolding sample_from_step [OF False] i_def [symmetric] rest_def [symmetric] by auto
  qed simp
qed simp

lemma random_sample_Inr:
  assumes "random_sample pop k w = Inr (ys, w')"
  shows "0 \<le> k \<and> length ys = nat k \<and> set ys \<subseteq> set pop \<and> (distinct pop \<longrightarrow> distinct ys)"
proof -
  from assms have k: "0 \<le> k" "k \<le> int (length pop)" and ys: "ys = fst (sample_from pop (nat k) w)"
    by (auto simp: random_sample_def split: if_splits)
  have "length ys = nat k" using k by (simp add: ys sample_from_length)
  moreover have "set ys \<subseteq> set pop" by (simp add: ys sample_from_set)
  moreover have "distinct pop \<longrightarrow> distinct ys" by (simp add: ys sample_from_distinct)
  ultimately show ?thesis using k by simp
qed

lemma send_loop_closed:
  "send_loop msg ps (a, rm, tm) =
     (a\<lparr>messages_sent := messages_sent a + int (length ps)\<rparr>,
      rm @ map (msg_copy msg) ps, tm + int (length ps))"
  by (induction ps arbitrary: a rm tm) simp_all

subsection \<open>Delivery, emission and whole rounds\<close>

lemma adopts_refl: "adopts L a a"
  by (simp add: adopts_def)

lemma adopts_trans: "adopts L a b \<Longrightarrow> adopts L b c \<Longrightarrow> adopts L a c"
  by (auto simp: adopts_def is_byzantine_def)

lemma frame_refl: "frame net net"
  by (simp add: frame_def)

lemma frame_trans: "frame a b \<Longrightarrow> frame b c \<Longrightarrow> frame a c"
  by (simp add: frame_def)

lemma py_index_Inr: "py_index xs i = Inr j \<Longrightarrow> j < length xs"
  by (auto simp: py_index_def split: if_splits)

lemma py_index_in_range: "0 \<le> i \<Longrightarrow> i < int (length xs) \<Longrightarrow> py_index xs i = Inr (nat i)"
  by (simp add: py_index_def)

lemma handle_summary_byzantine:
  "is_byzantine rcv \<Longrightarrow>
     handle_summary net rcv m w =
       Inr (rcv\<lparr>messages_received := messages_received rcv + 1\<rparr>, net, w)"
  by (simp add: handle_summary_def Let_def is_byzantine_def)

lemma handle_summary_honest:
  assumes "\<not> is_byzantine rcv" and "view m = Some sv" and "local_view rcv = Some lv"
  shows "handle_summary net rcv m w =
     (if version sv > version lv \<or> (version sv = version lv \<and> doc_hash sv \<noteq> doc_hash lv)
      then Inr (rcv\<lparr>messages_received := messages_received rcv + 1,
                    ledger_queries := ledger_queries rcv + 1,
                    local_view := Some ((ledger_view net)\<lparr>timestamp := fst (time_time w)\<rparr>)\<rparr>,
                net\<lparr>total_ledger_queries := total_ledger_queries net + 1\<rparr>,
                snd (time_time w))
      else Inr (rcv\<lparr>messages_received := messages_received rcv + 1\<rparr>, net, w))"
  using assms
  by (auto simp: handle_summary_def is_byzantine_def Let_def split: prod.splits)

lemma handle_summary_cases:
  assumes "handle_summary net rcv m w = Inr (r', net', w')"
  shows "(r' = rcv\<lparr>messages_received := messages_received rcv + 1\<rparr> \<and> net' = net \<and> w' = w) \<or>
         (\<not> is_byzantine rcv \<and>
          r' = rcv\<lparr>messages_received := messages_received rcv + 1,
                    ledger_queries := ledger_queries rcv + 1,
                    local_view := Some ((ledger_view net)\<lparr>timestamp := fst (time_time w)\<rparr>)\<rparr> \<and>
          net' = net\<lparr>total_ledger_queries := total_ledger_queries net + 1\<rparr> \<and>
          w' = snd (time_time w))"
proof (cases "is_byzantine rcv")
  case True
  with assms show ?thesis
    by (simp add: handle_summary_byzantine)
next
  case False
  with assms obtain sv lv where v: "view m = Some sv" "local_view rcv = Some lv"
    by (auto simp: handle_summary_def Let_def is_byzantine_def split: option.splits)
  from assms show ?thesis
    unfolding handle_summary_honest [OF False v]
    by (simp add: False split: if_splits)
qed

lemma handle_summary_Inr:
  assumes "handle_summary net rcv m w = Inr (r', net', w')"
  shows "adopts (ledger_view net) rcv r' \<and> messages_sent r' = messages_sent rcv \<and>
         peers r' = peers rcv \<and> frame net net' \<and> agents net' = agents net"
  using handle_summary_cases [OF assms]
proof (elim disjE conjE)
  assume "r' = rcv\<lparr>messages_received := messages_received rcv + 1\<rparr>" "net' = net"
  then show ?thesis by (simp add: adopts_def frame_def)
next
  assume "\<not> is_byzantine rcv"
    "r' = rcv\<lparr>messages_received := messages_received rcv + 1,
                    ledger_queries := ledger_queries rcv + 1,
                    local_view := Some ((ledger_view net)\<lparr>timestamp := fst (time_time w)\<rparr>)\<rparr>"
    "net' = net\<lparr>total_ledger_queries := total_ledger_queries net + 1\<rparr>"
  then show ?thesis by (simp add: adopts_def frame_def view_eq_def)
qed

lemma list_all2_adopts_update:
  assumes "list_all2 (adopts L) xs ys" and "i < length ys" and "adopts L (ys ! i) r"
  shows "list_all2 (adopts L) xs (ys[i := r])"
proof -
  have "adopts L (xs ! j) (ys[i := r] ! j)" if "j < length xs" for j
  proof (cases "j = i")
    case True
    with assms that show ?thesis
      by (metis adopts_trans list_all2_nthD nth_list_update_eq)
  next
    case False
    with assms that show ?thesis
      by (simp add: list_all2_nthD)
  qed
  with assms(1) show ?thesis
    by (simp add: list_all2_conv_all_nth)
qed

lemma deliver_loop_Inr:
  assumes "deliver_loop ms (net, w) = Inr (net', w')"
  shows "frame net net' \<and> list_all2 (adopts (ledger_view net)) (agents net) (agents net') \<and>
         map messages_sent (agents net') = map messages_sent (agents net)"
  using assms
proof (induction ms arbitrary: net w)
  case Nil
  then show ?case by (simp add: frame_refl list_all2_refl adopts_refl)
next
  case (Cons msg ms)
  from Cons.prems obtain i where i: "py_index (agents net) (receiver msg) = Inr i"
    by (auto split: sum.splits)
  with Cons.prems obtain r' n1 w1 where
    h: "handle_summary net (agents net ! i) msg w = Inr (r', n1, w1)"
    by (auto split: sum.splits)
  define n2 where "n2 = n1\<lparr>agents := (agents n1)[i := r']\<rparr>"
  from Cons.prems i h have rest: "deliver_loop ms (n2, w1) = Inr (net', w')"
    by (simp add: n2_def)
  from handle_summary_Inr [OF h] have
    ad: "adopts (ledger_view net) (agents net ! i) r'" and
    ms: "messages_sent r' = messages_sent (agents net ! i)" and
    fr: "frame net n1" and ag: "agents n1 = agents net"
    by auto
  have il: "i < length (agents net)" using i by (rule py_index_Inr)
  have fr2: "frame net n2" using fr by (simp add: frame_def n2_def)
  have L: "ledger_view n2 = ledger_view net" using fr2 by (simp add: frame_def)
  have a2: "agents n2 = (agents net)[i := r']" by (simp add: n2_def ag)
  have step: "list_all2 (adopts (ledger_view net)) (agents net) (agents n2)"
    unfolding a2 using il ad
    by (intro list_all2_adopts_update) (simp_all add: list_all2_refl adopts_refl)
  have sent: "map messages_sent (agents n2) = map messages_sent (agents net)"
    unfolding a2 using il ms by (simp add: map_update list_update_same_conv)
  from Cons.IH [OF rest] have
    "frame n2 net'" and "list_all2 (adopts (ledger_view net)) (agents n2) (agents net')" and
    "map messages_sent (agents net') = map messages_sent (agents n2)"
    by (simp_all add: L)
  then have "frame net net'" and
    "list_all2 (adopts (ledger_view net)) (agents net) (agents net')" and
    "map messages_sent (agents net') = map messages_sent (agents net)"
    using fr2 step sent
      list_all2_trans [of "adopts (ledger_view net)" "adopts (ledger_view net)"
        "adopts (ledger_view net)" "agents net" "agents n2" "agents net'"]
    by (auto intro: frame_trans adopts_trans)
  then show ?case by simp
qed

lemma py_range_set: "set (py_range n) = {i. 0 \<le> i \<and> i < n}"
  by (auto simp: py_range_def)

lemma py_range_distinct: "distinct (py_range n)"
  by (simp add: py_range_def)

lemma py_range_length: "length (py_range n) = nat n"
  by (simp add: py_range_def)

lemma others_length:
  assumes "0 \<le> aid" and "aid < n"
  shows "int (length (filter (\<lambda>i. i \<noteq> aid) (py_range n))) = n - 1"
proof -
  have "filter (\<lambda>i. i \<noteq> aid) (py_range n) = filter (\<lambda>i. aid \<noteq> i) (py_range n)"
    by (rule filter_cong) auto
  then have "filter (\<lambda>i. i \<noteq> aid) (py_range n) = removeAll aid (py_range n)"
    by (simp add: removeAll_filter_not_eq)
  moreover have "aid \<in> set (py_range n)" using assms by (simp add: py_range_set)
  ultimately have "length (filter (\<lambda>i. i \<noteq> aid) (py_range n)) = length (py_range n) - 1"
    using py_range_distinct [of n] by (simp add: distinct_removeAll length_remove1 distinct_remove1_removeAll [symmetric])
  with assms show ?thesis by (simp add: py_range_length)
qed

lemma select_peers_Inr:
  assumes "select_peers net aid w = Inr (ps, w')"
  shows "(\<forall>p \<in> set ps. 0 \<le> p \<and> p < n_agents net \<and> p \<noteq> aid) \<and> distinct ps \<and>
         int (length ps) =
           min (fanout net) (int (length (filter (\<lambda>i. i \<noteq> aid) (py_range (n_agents net)))))"
proof -
  let ?others = "filter (\<lambda>i. i \<noteq> aid) (py_range (n_agents net))"
  from assms have rs: "random_sample ?others (min (fanout net) (int (length ?others))) w = Inr (ps, w')"
    by (simp add: select_peers_def Let_def)
  from random_sample_Inr [OF rs] have
    "0 \<le> min (fanout net) (int (length ?others))"
    "length ps = nat (min (fanout net) (int (length ?others)))"
    "set ps \<subseteq> set ?others" "distinct ?others \<longrightarrow> distinct ps"
    by simp_all
  then show ?thesis
    by (auto simp: py_range_set py_range_distinct)
qed

lemma select_peers_succeeds:
  assumes "0 \<le> fanout net"
  shows "\<exists>ps w'. select_peers net aid w = Inr (ps, w')"
  using assms
  by (simp add: select_peers_def Let_def random_sample_def split: prod.splits)

lemma byzantine_agent_summary_msg:
  "sender (fst (byzantine_agent_summary H net a w)) = agent_id a \<and>
   view (fst (byzantine_agent_summary H net a w)) \<noteq> None"
  by (simp add: byzantine_agent_summary_def split: prod.splits)

lemma emit_loop_step:
  assumes "emit_loop H net (a # rest) (rm, tm, w) = Inr (as', rm', tm', w')"
  obtains ps w1 msg w2 rest' where
    "select_peers net (agent_id a) w = Inr (ps, w1)" and
    "sender msg = agent_id a" and
    "(is_byzantine a \<and> view msg \<noteq> None) \<or> view msg = local_view a" and
    "emit_loop H net rest (rm @ map (msg_copy msg) ps, tm + int (length ps), w2) =
       Inr (rest', rm', tm', w')" and
    "as' = a\<lparr>peers := ps, messages_sent := messages_sent a + int (length ps)\<rparr> # rest'" and
    "msg = fst (if is_byzantine a then byzantine_agent_summary H net (a\<lparr>peers := ps\<rparr>) w1
                else (honest_agent_summary net (a\<lparr>peers := ps\<rparr>), w1))"
proof -
  from assms obtain ps w1 where sp: "select_peers net (agent_id a) w = Inr (ps, w1)"
    by (auto split: sum.splits)
  define mw where "mw = (if is_byzantine (a\<lparr>peers := ps\<rparr>)
       then byzantine_agent_summary H net (a\<lparr>peers := ps\<rparr>) w1
       else (honest_agent_summary net (a\<lparr>peers := ps\<rparr>), w1))"
  have byz: "is_byzantine (a\<lparr>peers := ps\<rparr>) = is_byzantine a"
    by (simp add: is_byzantine_def)
  have s: "sender (fst mw) = agent_id a"
    using byzantine_agent_summary_msg [of H net "a\<lparr>peers := ps\<rparr>" w1]
    by (simp add: mw_def honest_agent_summary_def)
  have v: "(is_byzantine a \<and> view (fst mw) \<noteq> None) \<or> view (fst mw) = local_view a"
    using byzantine_agent_summary_msg [of H net "a\<lparr>peers := ps\<rparr>" w1]
    by (simp add: mw_def honest_agent_summary_def byz)
  from assms sp obtain rest' where
    "emit_loop H net rest (rm @ map (msg_copy (fst mw)) ps, tm + int (length ps), snd mw) =
       Inr (rest', rm', tm', w')" and
    "as' = a\<lparr>peers := ps, messages_sent := messages_sent a + int (length ps)\<rparr> # rest'"
    by (auto simp: Let_def send_loop_closed mw_def [symmetric] split: sum.splits prod.splits)
  moreover have "fst mw = fst (if is_byzantine a
       then byzantine_agent_summary H net (a\<lparr>peers := ps\<rparr>) w1
       else (honest_agent_summary net (a\<lparr>peers := ps\<rparr>), w1))"
    by (simp add: mw_def byz)
  ultimately show ?thesis
    using sp s v that by blast
qed

lemma emit_loop_shape:
  assumes "emit_loop H net as (rm, tm, w) = Inr (as', rm', tm', w')"
  shows "\<exists>new. rm' = rm @ new \<and> tm' = tm + int (length new) \<and>
     list_all2 (\<lambda>a a'. agent_id a' = agent_id a \<and> agent_type a' = agent_type a \<and>
                        local_view a' = local_view a) as as' \<and>
     sum_list (map messages_sent as') = sum_list (map messages_sent as) + int (length new) \<and>
     (\<forall>m \<in> set new. 0 \<le> receiver m \<and> receiver m < n_agents net \<and>
        (\<exists>a \<in> set as. sender m = agent_id a \<and>
           ((is_byzantine a \<and> view m \<noteq> None) \<or> view m = local_view a)))"
  using assms
proof (induction as arbitrary: rm tm w as')
  case Nil
  then show ?case by simp
next
  case (Cons a rest)
  from Cons.prems obtain ps w1 msg w2 rest' where
    sp: "select_peers net (agent_id a) w = Inr (ps, w1)" and
    sm: "sender msg = agent_id a" and
    vm: "(is_byzantine a \<and> view msg \<noteq> None) \<or> view msg = local_view a" and
    rec: "emit_loop H net rest (rm @ map (msg_copy msg) ps, tm + int (length ps), w2) =
       Inr (rest', rm', tm', w')" and
    as': "as' = a\<lparr>peers := ps, messages_sent := messages_sent a + int (length ps)\<rparr> # rest'"
    by (rule emit_loop_step)
  from Cons.IH [OF rec] obtain new where
    n1: "rm' = (rm @ map (msg_copy msg) ps) @ new" and
    n2: "tm' = tm + int (length ps) + int (length new)" and
    n3: "list_all2 (\<lambda>a a'. agent_id a' = agent_id a \<and> agent_type a' = agent_type a \<and>
                        local_view a' = local_view a) rest rest'" and
    n4: "sum_list (map messages_sent rest') = sum_list (map messages_sent rest) + int (length new)" and
    n5: "\<forall>m \<in> set new. 0 \<le> receiver m \<and> receiver m < n_agents net \<and>
        (\<exists>a \<in> set rest. sender m = agent_id a \<and>
           ((is_byzantine a \<and> view m \<noteq> None) \<or> view m = local_view a))"
    by blast
  from select_peers_Inr [OF sp] have
    pr: "\<forall>p \<in> set ps. 0 \<le> p \<and> p < n_agents net" by blast
  let ?new = "map (msg_copy msg) ps @ new"
  have "rm' = rm @ ?new" using n1 by simp
  moreover have "tm' = tm + int (length ?new)" using n2 by simp
  moreover have "list_all2 (\<lambda>a a'. agent_id a' = agent_id a \<and> agent_type a' = agent_type a \<and>
                        local_view a' = local_view a) (a # rest) as'"
    using n3 by (simp add: as')
  moreover have "sum_list (map messages_sent as') =
      sum_list (map messages_sent (a # rest)) + int (length ?new)"
    using n4 by (simp add: as')
  moreover have "\<forall>m \<in> set ?new. 0 \<le> receiver m \<and> receiver m < n_agents net \<and>
        (\<exists>b \<in> set (a # rest). sender m = agent_id b \<and>
           ((is_byzantine b \<and> view m \<noteq> None) \<or> view m = local_view b))"
  proof
    fix m assume "m \<in> set ?new"
    then consider p where "p \<in> set ps" "m = msg_copy msg p" | "m \<in> set new" by auto
    then show "0 \<le> receiver m \<and> receiver m < n_agents net \<and>
        (\<exists>b \<in> set (a # rest). sender m = agent_id b \<and>
           ((is_byzantine b \<and> view m \<noteq> None) \<or> view m = local_view b))"
    proof cases
      case 1
      with pr sm vm show ?thesis by (auto simp: msg_copy_def)
    next
      case 2
      with n5 show ?thesis by auto
    qed
  qed
  ultimately show ?case by blast
qed

lemma emit_loop_counts:
  assumes "emit_loop H net as (rm, tm, w) = Inr (as', rm', tm', w')"
    and "\<forall>a \<in> set as. 0 \<le> agent_id a \<and> agent_id a < n_agents net"
    and "fanout net \<le> n_agents net - 1"
  shows "map messages_sent as' = map (\<lambda>a. messages_sent a + fanout net) as \<and>
         tm' = tm + fanout net * int (length as)"
  using assms(1,2)
proof (induction as arbitrary: rm tm w as')
  case Nil
  then show ?case by simp
next
  case (Cons a rest)
  from Cons.prems(1) obtain ps w1 msg w2 rest' where
    sp: "select_peers net (agent_id a) w = Inr (ps, w1)" and
    rec: "emit_loop H net rest (rm @ map (msg_copy msg) ps, tm + int (length ps), w2) =
       Inr (rest', rm', tm', w')" and
    as': "as' = a\<lparr>peers := ps, messages_sent := messages_sent a + int (length ps)\<rparr> # rest'"
    by (rule emit_loop_step)
  from Cons.prems(2) have "0 \<le> agent_id a" "agent_id a < n_agents net" by simp_all
  then have "int (length (filter (\<lambda>i. i \<noteq> agent_id a) (py_range (n_agents net)))) = n_agents net - 1"
    by (rule others_length)
  with select_peers_Inr [OF sp] assms(3) have len: "int (length ps) = fanout net"
    by simp
  from Cons.IH [OF rec] Cons.prems(2) have
    "map messages_sent rest' = map (\<lambda>a. messages_sent a + fanout net) rest"
    "tm' = tm + int (length ps) + fanout net * int (length rest)"
    by simp_all
  then show ?case
    by (simp add: as' len algebra_simps)
qed

lemma emit_loop_one_view_per_sender:
  assumes "emit_loop H net as (rm, tm, w) = Inr (as', rm', tm', w')"
    and "distinct (map agent_id as)"
  shows "\<exists>new. rm' = rm @ new \<and> (\<forall>m \<in> set new. sender m \<in> agent_id ` set as) \<and>
     (\<forall>m1 \<in> set new. \<forall>m2 \<in> set new. sender m1 = sender m2 \<longrightarrow> view m1 = view m2)"
  using assms
proof (induction as arbitrary: rm tm w as')
  case Nil
  then show ?case by simp
next
  case (Cons a rest)
  from Cons.prems(1) obtain ps w1 msg w2 rest' where
    sm: "sender msg = agent_id a" and
    rec: "emit_loop H net rest (rm @ map (msg_copy msg) ps, tm + int (length ps), w2) =
       Inr (rest', rm', tm', w')"
    by (rule emit_loop_step)
  from Cons.prems(2) have d: "distinct (map agent_id rest)" and
    notin: "agent_id a \<notin> agent_id ` set rest" by simp_all
  from Cons.IH [OF rec d] obtain new where
    n1: "rm' = (rm @ map (msg_copy msg) ps) @ new" and
    n2: "\<forall>m \<in> set new. sender m \<in> agent_id ` set rest" and
    n3: "\<forall>m1 \<in> set new. \<forall>m2 \<in> set new. sender m1 = sender m2 \<longrightarrow> view m1 = view m2"
    by blast
  let ?mine = "map (msg_copy msg) ps"
  have mine: "\<forall>m \<in> set ?mine. sender m = agent_id a \<and> view m = view msg"
    using sm by (auto simp: msg_copy_def)
  have "rm' = rm @ (?mine @ new)" using n1 by simp
  moreover have "\<forall>m \<in> set (?mine @ new). sender m \<in> agent_id ` set (a # rest)"
    using mine n2 by auto
  moreover have "\<forall>m1 \<in> set (?mine @ new). \<forall>m2 \<in> set (?mine @ new).
      sender m1 = sender m2 \<longrightarrow> view m1 = view m2"
  proof (intro ballI impI)
    fix m1 m2 assume m: "m1 \<in> set (?mine @ new)" "m2 \<in> set (?mine @ new)"
      and eq: "sender m1 = sender m2"
    show "view m1 = view m2"
    proof (cases "m1 \<in> set ?mine")
      case True
      with mine have "sender m1 = agent_id a" "view m1 = view msg" by auto
      with eq n2 notin m(2) have "m2 \<in> set ?mine" by (metis Un_iff set_append)
      with mine \<open>view m1 = view msg\<close> show ?thesis by auto
    next
      case False
      with m(1) have m1: "m1 \<in> set new" by simp
      with n2 notin eq mine have "m2 \<notin> set ?mine" by metis
      with m(2) have "m2 \<in> set new" by simp
      with n3 m1 eq show ?thesis by blast
    qed
  qed
  ultimately show ?case by blast
qed

lemma emit_loop_succeeds:
  assumes "0 \<le> fanout net \<or> as = []"
  shows "\<exists>r. emit_loop H net as (rm, tm, w) = Inr r"
  using assms
proof (induction as arbitrary: rm tm w)
  case Nil
  then show ?case by simp
next
  case (Cons a rest)
  then have f: "0 \<le> fanout net" by simp
  then obtain ps w1 where sp: "select_peers net (agent_id a) w = Inr (ps, w1)"
    using select_peers_succeeds by blast
  define mw where "mw = (if is_byzantine (a\<lparr>peers := ps\<rparr>)
       then byzantine_agent_summary H net (a\<lparr>peers := ps\<rparr>) w1
       else (honest_agent_summary net (a\<lparr>peers := ps\<rparr>), w1))"
  from Cons.IH [of "rm @ map (msg_copy (fst mw)) ps" "tm + int (length ps)" "snd mw"] f
  obtain r where "emit_loop H net rest (rm @ map (msg_copy (fst mw)) ps, tm + int (length ps), snd mw) = Inr r"
    by blast
  then show ?case
    by (cases r; cases mw)
      (auto simp: sp Let_def send_loop_closed mw_def [symmetric] split: prod.splits)
qed

lemma check_convergence_eq:
  "check_convergence net =
     (all_honest_at_ledger net,
      if all_honest_at_ledger net \<and> convergence_round net = None
      then net\<lparr>convergence_round := Some (round_num net)\<rparr> else net)"
  by (auto simp: check_convergence_def all_honest_at_ledger_def Let_def list_ex_iff)

lemma emit_phase_Inr:
  assumes "emit_phase H net w = Inr (net2, rm, w1)"
  shows "frame (net\<lparr>round_num := round_num net + 1,
                    total_messages := total_messages net + int (length rm)\<rparr>) net2 \<and>
         total_ledger_queries net2 = total_ledger_queries net \<and>
         list_all2 (\<lambda>a a'. agent_id a' = agent_id a \<and> agent_type a' = agent_type a \<and>
                        local_view a' = local_view a) (agents net) (agents net2) \<and>
         sum_list (map messages_sent (agents net2)) =
           sum_list (map messages_sent (agents net)) + int (length rm) \<and>
         (\<forall>m \<in> set rm. 0 \<le> receiver m \<and> receiver m < n_agents net \<and>
            (\<exists>a \<in> set (agents net). sender m = agent_id a \<and>
               ((is_byzantine a \<and> view m \<noteq> None) \<or> view m = local_view a)))"
proof -
  let ?net1 = "net\<lparr>round_num := round_num net + 1\<rparr>"
  from assms obtain ags tm where
    e: "emit_loop H ?net1 (agents ?net1) ([], total_messages ?net1, w) = Inr (ags, rm, tm, w1)" and
    n2: "net2 = ?net1\<lparr>agents := ags, total_messages := tm\<rparr>"
    by (auto simp: emit_phase_def Let_def split: sum.splits)
  from emit_loop_shape [OF e] show ?thesis
    by (auto simp: n2 frame_def)
qed

lemma run_round_Inr:
  assumes "run_round H net w = Inr (c, net', w')"
  obtains net2 rm w1 net3 where
    "emit_phase H net w = Inr (net2, rm, w1)" and
    "deliver_loop rm (net2, w1) = Inr (net3, w')" and
    "check_convergence net3 = (c, net')"
  using assms
  by (auto simp: run_round_def split: sum.splits prod.splits)

lemma list_all2_same_adopts:
  assumes "list_all2 (\<lambda>a a'. agent_id a' = agent_id a \<and> agent_type a' = agent_type a \<and>
                        local_view a' = local_view a) xs ys"
  shows "list_all2 (adopts L) xs ys"
  using assms by (rule list_all2_mono) (simp add: adopts_def)

lemma list_all2_adopts_trans:
  assumes "list_all2 (adopts L) xs ys" and "list_all2 (adopts L) ys zs"
  shows "list_all2 (adopts L) xs zs"
  using assms
    list_all2_trans [of "adopts L" "adopts L" "adopts L" xs ys zs]
  by (blast intro: adopts_trans)

lemma run_round_effect:
  assumes "run_round H net w = Inr (c, net', w')"
  shows "list_all2 (adopts (ledger_view net)) (agents net) (agents net') \<and>
         ledger_view net' = ledger_view net \<and> n_agents net' = n_agents net \<and>
         fanout net' = fanout net \<and> round_num net' = round_num net + 1 \<and>
         c = all_honest_at_ledger net' \<and>
         convergence_round net' =
           (case convergence_round net of
              Some r \<Rightarrow> Some r
            | None \<Rightarrow> if c then Some (round_num net + 1) else None)"
proof -
  from assms obtain net2 rm w1 net3 where
    e: "emit_phase H net w = Inr (net2, rm, w1)" and
    d: "deliver_loop rm (net2, w1) = Inr (net3, w')" and
    cc: "check_convergence net3 = (c, net')"
    by (rule run_round_Inr)
  from emit_phase_Inr [OF e] have
    f2: "frame (net\<lparr>round_num := round_num net + 1,
                    total_messages := total_messages net + int (length rm)\<rparr>) net2" and
    a2: "list_all2 (adopts (ledger_view net)) (agents net) (agents net2)"
    by (simp_all add: list_all2_same_adopts)
  from deliver_loop_Inr [OF d] have
    f3: "frame net2 net3" and
    a3: "list_all2 (adopts (ledger_view net2)) (agents net2) (agents net3)"
    by simp_all
  have L2: "ledger_view net2 = ledger_view net" using f2 by (simp add: frame_def)
  have a: "list_all2 (adopts (ledger_view net)) (agents net) (agents net3)"
    using a2 a3 unfolding L2 by (rule list_all2_adopts_trans)
  from cc have c: "c = all_honest_at_ledger net3" and
    n': "net' = (if all_honest_at_ledger net3 \<and> convergence_round net3 = None
                 then net3\<lparr>convergence_round := Some (round_num net3)\<rparr> else net3)"
    unfolding check_convergence_eq by blast+
  have same: "agents net' = agents net3" "ledger_view net' = ledger_view net3"
    by (simp_all add: n')
  have c': "c = all_honest_at_ledger net'"
    by (simp add: c all_honest_at_ledger_def same)
  from f2 f3 have fields: "ledger_view net3 = ledger_view net" "n_agents net3 = n_agents net"
    "fanout net3 = fanout net" "round_num net3 = round_num net + 1"
    "convergence_round net3 = convergence_round net"
    by (simp_all add: frame_def)
  show ?thesis
    using a c' fields
    by (cases "convergence_round net") (auto simp: n' c)
qed

lemma all_honest_at_ledger_step:
  assumes "all_honest_at_ledger net" and
    "list_all2 (adopts (ledger_view net)) (agents net) (agents net')" and
    "ledger_view net' = ledger_view net"
  shows "all_honest_at_ledger net'"
  unfolding all_honest_at_ledger_def
proof (intro ballI impI)
  fix a' assume "a' \<in> set (agents net')" and h: "\<not> is_byzantine a'"
  then obtain i where i: "i < length (agents net')" "a' = agents net' ! i"
    by (metis in_set_conv_nth)
  with assms(2) have ad: "adopts (ledger_view net) (agents net ! i) a'" and
    il: "i < length (agents net)"
    by (simp_all add: list_all2_conv_all_nth)
  from ad h have hb: "\<not> is_byzantine (agents net ! i)"
    by (simp add: adopts_def is_byzantine_def)
  with assms(1) il have "\<not> view_ne (local_view (agents net ! i)) (ledger_view net)"
    by (simp add: all_honest_at_ledger_def)
  with ad show "\<not> view_ne (local_view a') (ledger_view net')"
    by (auto simp: adopts_def view_ne_def assms(3) split: option.splits)
qed

subsection \<open>The update rule\<close>

text \<open>
  Claim C1. A Summary delivered to an honest receiver whose carried view is ahead of the
  receiver's version, or ties it with another digest, makes the receiver query the
  ledger: its own query counter and the network's both grow by one, and its local view
  becomes the ledger view stamped with the clock reading of that moment. In every other
  case only the received counter moves: the local view and both query counters stay.
\<close>

theorem handle_summary_rule:
  assumes "\<not> is_byzantine rcv" and "view summary = Some sv" and "local_view rcv = Some lv"
  shows "handle_summary net rcv summary w =
     (if version sv > version lv \<or> (version sv = version lv \<and> doc_hash sv \<noteq> doc_hash lv)
      then Inr (rcv\<lparr>messages_received := messages_received rcv + 1,
                    ledger_queries := ledger_queries rcv + 1,
                    local_view := Some ((ledger_view net)\<lparr>timestamp := fst (time_time w)\<rparr>)\<rparr>,
                net\<lparr>total_ledger_queries := total_ledger_queries net + 1\<rparr>,
                snd (time_time w))
      else Inr (rcv\<lparr>messages_received := messages_received rcv + 1\<rparr>, net, w))"
  using assms
  by (auto simp: handle_summary_def is_byzantine_def Let_def split: prod.splits)

theorem handle_summary_rule_witness:
  "\<not> is_byzantine ex_stale \<and> view ex_lie = Some ex_lie_view \<and>
   local_view ex_stale = Some ex_stale_view \<and>
   handle_summary ex_net ex_stale ex_lie demo_world =
     Inr (ex_stale\<lparr>messages_received := 1, ledger_queries := 1,
                    local_view := Some (ex_ledger\<lparr>timestamp := 1000\<rparr>)\<rparr>,
          ex_net\<lparr>total_ledger_queries := 1\<rparr>, snd (time_time demo_world))"
proof -
  have h1: "\<not> is_byzantine ex_stale" by (simp add: is_byzantine_def ex_stale_def)
  have h2: "view ex_lie = Some ex_lie_view" by (simp add: ex_lie_def)
  have h3: "local_view ex_stale = Some ex_stale_view" by (simp add: ex_stale_def)
  show ?thesis
    using h1 h2 h3 handle_summary_rule [OF h1 h2 h3, of ex_net demo_world]
    by (simp add: ex_lie_view_def ex_stale_view_def ex_net_def ex_stale_def time_time_def
        demo_world_def)
qed

subsection \<open>View equality\<close>

lemma honest_diverged_rel:
  assumes "list_all2 (\<lambda>x y. agent_type x = agent_type y \<and>
                     rel_option view_eq (local_view x) (local_view y)) xs ys"
    and "view_eq L L'"
  shows "list_ex (\<lambda>a. view_ne (local_view a) L) (filter (\<lambda>a. \<not> is_byzantine a) xs) =
         list_ex (\<lambda>a. view_ne (local_view a) L') (filter (\<lambda>a. \<not> is_byzantine a) ys)"
  using assms
proof (induction rule: list_all2_induct)
  case Nil
  then show ?case by simp
next
  case (Cons x xs y ys)
  from Cons.hyps(1) Cons.prems have "view_ne (local_view x) L = view_ne (local_view y) L'"
    by (cases "local_view x"; cases "local_view y") (auto simp: view_ne_def view_eq_def)
  with Cons show ?case
    by (simp add: is_byzantine_def)
qed

lemma handle_summary_receiver_stamp:
  "rel_sum (=)
     (\<lambda>x y. (fst y)\<lparr>local_view := None\<rparr> = (fst x)\<lparr>local_view := None\<rparr> \<and>
            rel_option view_eq (local_view (fst y)) (local_view (fst x)) \<and> snd y = snd x)
     (handle_summary net (rcv\<lparr>local_view := Some lv\<rparr>) summary w)
     (handle_summary net (rcv\<lparr>local_view := Some (lv\<lparr>timestamp := tr\<rparr>)\<rparr>) summary w)"
proof (cases "is_byzantine rcv")
  case True
  then have "is_byzantine (rcv\<lparr>local_view := Some lv\<rparr>)"
    "is_byzantine (rcv\<lparr>local_view := Some (lv\<lparr>timestamp := tr\<rparr>)\<rparr>)"
    by (simp_all add: is_byzantine_def)
  then show ?thesis
    by (simp add: handle_summary_byzantine view_eq_def)
next
  case False
  then have h: "\<not> is_byzantine (rcv\<lparr>local_view := Some lv\<rparr>)"
    "\<not> is_byzantine (rcv\<lparr>local_view := Some (lv\<lparr>timestamp := tr\<rparr>)\<rparr>)"
    by (simp_all add: is_byzantine_def)
  show ?thesis
  proof (cases "view summary")
    case None
    with False show ?thesis
      by (simp add: handle_summary_def Let_def is_byzantine_def)
  next
    case (Some sv)
    have l: "local_view (rcv\<lparr>local_view := Some lv\<rparr>) = Some lv"
      "local_view (rcv\<lparr>local_view := Some (lv\<lparr>timestamp := tr\<rparr>)\<rparr>) =
         Some (lv\<lparr>timestamp := tr\<rparr>)"
      by simp_all
    show ?thesis
      unfolding handle_summary_honest [OF h(1) Some l(1)]
        handle_summary_honest [OF h(2) Some l(2)]
      by (simp add: view_eq_def)
  qed
qed

text \<open>
  Claim C6. Two views are equal exactly when subject, version and digest agree, that is,
  when they are the same record once the timestamps are erased. The timestamp takes no
  part: re-stamping either side leaves the equality as it is, and the convergence check
  gives the same answer on two networks whose views agree up to timestamps. The conflict
  detection of the handler reads neither the timestamp of the carried view (the result is
  the same) nor that of the receiver's own view (the same branch is taken: same counters,
  same network, same clock, and a resulting view equal up to the timestamp).
\<close>

theorem view_equality_ignores_timestamp:
  "(view_eq a b \<longleftrightarrow> did a = did b \<and> version a = version b \<and> doc_hash a = doc_hash b) \<and>
   (view_eq a b \<longleftrightarrow> a\<lparr>timestamp := t0\<rparr> = b\<lparr>timestamp := t0\<rparr>) \<and>
   view_eq (a\<lparr>timestamp := t\<rparr>) (b\<lparr>timestamp := t'\<rparr>) = view_eq a b \<and>
   (list_all2 (\<lambda>x y. agent_type x = agent_type y \<and>
                     rel_option view_eq (local_view x) (local_view y)) (agents net) (agents net') \<and>
    view_eq (ledger_view net) (ledger_view net') \<longrightarrow>
      fst (check_convergence net) = fst (check_convergence net')) \<and>
   handle_summary net rcv (summary\<lparr>view := Some (sv\<lparr>timestamp := t\<rparr>)\<rparr>) w =
     handle_summary net rcv (summary\<lparr>view := Some sv\<rparr>) w \<and>
   rel_sum (=)
     (\<lambda>x y. (fst y)\<lparr>local_view := None\<rparr> = (fst x)\<lparr>local_view := None\<rparr> \<and>
            rel_option view_eq (local_view (fst y)) (local_view (fst x)) \<and> snd y = snd x)
     (handle_summary net (rcv\<lparr>local_view := Some lv\<rparr>) (summary\<lparr>view := Some sv\<rparr>) w)
     (handle_summary net (rcv\<lparr>local_view := Some (lv\<lparr>timestamp := t'\<rparr>)\<rparr>)
        (summary\<lparr>view := Some (sv\<lparr>timestamp := t\<rparr>)\<rparr>) w)"
proof (intro conjI impI)
  show "view_eq a b \<longleftrightarrow> did a = did b \<and> version a = version b \<and> doc_hash a = doc_hash b"
    by (simp add: view_eq_def)
  show "view_eq a b \<longleftrightarrow> a\<lparr>timestamp := t0\<rparr> = b\<lparr>timestamp := t0\<rparr>"
    by (cases a; cases b) (auto simp: view_eq_def)
  show "view_eq (a\<lparr>timestamp := t\<rparr>) (b\<lparr>timestamp := t'\<rparr>) = view_eq a b"
    by (simp add: view_eq_def)
  show carried: "handle_summary net rcv (summary\<lparr>view := Some (sv\<lparr>timestamp := t\<rparr>)\<rparr>) w =
     handle_summary net rcv (summary\<lparr>view := Some sv\<rparr>) w" for rcv
    by (simp add: handle_summary_def Let_def split: option.splits)
  show "rel_sum (=)
     (\<lambda>x y. (fst y)\<lparr>local_view := None\<rparr> = (fst x)\<lparr>local_view := None\<rparr> \<and>
            rel_option view_eq (local_view (fst y)) (local_view (fst x)) \<and> snd y = snd x)
     (handle_summary net (rcv\<lparr>local_view := Some lv\<rparr>) (summary\<lparr>view := Some sv\<rparr>) w)
     (handle_summary net (rcv\<lparr>local_view := Some (lv\<lparr>timestamp := t'\<rparr>)\<rparr>)
        (summary\<lparr>view := Some (sv\<lparr>timestamp := t\<rparr>)\<rparr>) w)"
    unfolding carried by (rule handle_summary_receiver_stamp)
next
  assume "list_all2 (\<lambda>x y. agent_type x = agent_type y \<and>
                     rel_option view_eq (local_view x) (local_view y)) (agents net) (agents net') \<and>
    view_eq (ledger_view net) (ledger_view net')"
  then show "fst (check_convergence net) = fst (check_convergence net')"
    using honest_diverged_rel [of "agents net" "agents net'" "ledger_view net" "ledger_view net'"]
    by (simp add: check_convergence_def Let_def)
qed

theorem view_equality_ignores_timestamp_witness:
  "list_all2 (\<lambda>x y. agent_type x = agent_type y \<and>
       rel_option view_eq (local_view x) (local_view y))
     (agents ex_net) (agents (ex_net\<lparr>agents := [ex_byz, ex_stale, ex_fresh\<lparr>local_view := Some (ex_ledger\<lparr>timestamp := 2000\<rparr>)\<rparr>]\<rparr>)) \<and>
   view_eq (ledger_view ex_net) (ex_ledger\<lparr>timestamp := 5\<rparr>) \<and>
   ex_ledger \<noteq> ex_ledger\<lparr>timestamp := 5\<rparr> \<and>
   fst (check_convergence ex_net) =
     fst (check_convergence (ex_net\<lparr>agents := [ex_byz, ex_stale, ex_fresh\<lparr>local_view := Some (ex_ledger\<lparr>timestamp := 2000\<rparr>)\<rparr>],
            ledger_view := ex_ledger\<lparr>timestamp := 5\<rparr>\<rparr>)) \<and>
   rel_sum (=)
     (\<lambda>x y. (fst y)\<lparr>local_view := None\<rparr> = (fst x)\<lparr>local_view := None\<rparr> \<and>
            rel_option view_eq (local_view (fst y)) (local_view (fst x)) \<and> snd y = snd x)
     (handle_summary ex_net (ex_stale\<lparr>local_view := Some ex_stale_view\<rparr>)
        (ex_lie\<lparr>view := Some ex_lie_view\<rparr>) demo_world)
     (handle_summary ex_net (ex_stale\<lparr>local_view := Some (ex_stale_view\<lparr>timestamp := 7\<rparr>)\<rparr>)
        (ex_lie\<lparr>view := Some (ex_lie_view\<lparr>timestamp := 3\<rparr>)\<rparr>) demo_world)"
proof -
  have h: "list_all2 (\<lambda>x y. agent_type x = agent_type y \<and>
       rel_option view_eq (local_view x) (local_view y))
     (agents ex_net) (agents (ex_net\<lparr>agents := [ex_byz, ex_stale, ex_fresh\<lparr>local_view := Some (ex_ledger\<lparr>timestamp := 2000\<rparr>)\<rparr>],
            ledger_view := ex_ledger\<lparr>timestamp := 5\<rparr>\<rparr>)) \<and>
   view_eq (ledger_view ex_net) (ledger_view (ex_net\<lparr>agents := [ex_byz, ex_stale, ex_fresh\<lparr>local_view := Some (ex_ledger\<lparr>timestamp := 2000\<rparr>)\<rparr>],
            ledger_view := ex_ledger\<lparr>timestamp := 5\<rparr>\<rparr>))"
    by (simp add: ex_net_def ex_byz_def ex_stale_def ex_fresh_def ex_ledger_def ex_lie_view_def
        ex_stale_view_def view_eq_def)
  have ne: "ex_ledger \<noteq> ex_ledger\<lparr>timestamp := 5\<rparr>"
    by (simp add: ex_ledger_def)
  note t = view_equality_ignores_timestamp
    [where net = ex_net and
       net' = "ex_net\<lparr>agents := [ex_byz, ex_stale, ex_fresh\<lparr>local_view := Some (ex_ledger\<lparr>timestamp := 2000\<rparr>)\<rparr>],
            ledger_view := ex_ledger\<lparr>timestamp := 5\<rparr>\<rparr>" and
       rcv = ex_stale and lv = ex_stale_view and summary = ex_lie and sv = ex_lie_view and
       w = demo_world and t = 3 and t' = 7 and a = ex_ledger and b = ex_ledger and t0 = 0]
  from t h have c: "fst (check_convergence ex_net) =
     fst (check_convergence (ex_net\<lparr>agents := [ex_byz, ex_stale, ex_fresh\<lparr>local_view := Some (ex_ledger\<lparr>timestamp := 2000\<rparr>)\<rparr>],
            ledger_view := ex_ledger\<lparr>timestamp := 5\<rparr>\<rparr>))"
    by blast
  from t have r: "rel_sum (=)
     (\<lambda>x y. (fst y)\<lparr>local_view := None\<rparr> = (fst x)\<lparr>local_view := None\<rparr> \<and>
            rel_option view_eq (local_view (fst y)) (local_view (fst x)) \<and> snd y = snd x)
     (handle_summary ex_net (ex_stale\<lparr>local_view := Some ex_stale_view\<rparr>)
        (ex_lie\<lparr>view := Some ex_lie_view\<rparr>) demo_world)
     (handle_summary ex_net (ex_stale\<lparr>local_view := Some (ex_stale_view\<lparr>timestamp := 7\<rparr>)\<rparr>)
        (ex_lie\<lparr>view := Some (ex_lie_view\<lparr>timestamp := 3\<rparr>)\<rparr>) demo_world)"
    by blast
  from h have h1: "list_all2 (\<lambda>x y. agent_type x = agent_type y \<and>
       rel_option view_eq (local_view x) (local_view y))
     (agents ex_net) (agents (ex_net\<lparr>agents := [ex_byz, ex_stale, ex_fresh\<lparr>local_view := Some (ex_ledger\<lparr>timestamp := 2000\<rparr>)\<rparr>]\<rparr>))"
    and h2: "view_eq (ledger_view ex_net) (ex_ledger\<lparr>timestamp := 5\<rparr>)"
    by simp_all
  from h1 h2 ne c r show ?thesis by (intro conjI)
qed

subsection \<open>Conservative adoption and convergence\<close>

lemma run_rounds_effect:
  assumes "run_rounds H k net w = Inr (net', w')"
  shows "list_all2 (adopts (ledger_view net)) (agents net) (agents net') \<and>
         ledger_view net' = ledger_view net \<and> n_agents net' = n_agents net \<and>
         fanout net' = fanout net \<and> round_num net' = round_num net + int k \<and>
         (convergence_round net \<noteq> None \<longrightarrow> convergence_round net' = convergence_round net)"
  using assms
proof (induction k arbitrary: net w)
  case 0
  then show ?case by (simp add: list_all2_refl adopts_refl)
next
  case (Suc k)
  from Suc.prems obtain c n1 w1 where
    r: "run_round H net w = Inr (c, n1, w1)" and rest: "run_rounds H k n1 w1 = Inr (net', w')"
    by (auto split: sum.splits)
  from run_round_effect [OF r] have
    a1: "list_all2 (adopts (ledger_view net)) (agents net) (agents n1)" and
    f1: "ledger_view n1 = ledger_view net" "n_agents n1 = n_agents net"
      "fanout n1 = fanout net" "round_num n1 = round_num net + 1" and
    c1: "convergence_round net \<noteq> None \<longrightarrow> convergence_round n1 = convergence_round net"
    by (auto split: option.splits)
  from Suc.IH [OF rest] have
    a2: "list_all2 (adopts (ledger_view net)) (agents n1) (agents net')" and
    f2: "ledger_view net' = ledger_view n1" "n_agents net' = n_agents n1"
      "fanout net' = fanout n1" "round_num net' = round_num n1 + int k" and
    c2: "convergence_round n1 \<noteq> None \<longrightarrow> convergence_round net' = convergence_round n1"
    by (simp_all add: f1)
  from a1 a2 have "list_all2 (adopts (ledger_view net)) (agents net) (agents net')"
    by (rule list_all2_adopts_trans)
  with f1 f2 c1 c2 show ?case by auto
qed

text \<open>
  Claim C2. After a round, and after the delivery of any list of messages whatever, the
  local view of an honest agent is the view it held before or a view equal to the
  ledger's under the equality that ignores the timestamp. The ledger view itself stays.
  No view carried by a message is ever stored.
\<close>

theorem conservative_adoption:
  assumes "run_round H net w = Inr (c, net', w') \<or> deliver_loop ms (net, w) = Inr (net', w')"
    and "i < length (agents net)" and "\<not> is_byzantine (agents net ! i)"
  shows "ledger_view net' = ledger_view net \<and>
         (local_view (agents net' ! i) = local_view (agents net ! i) \<or>
          (\<exists>v. local_view (agents net' ! i) = Some v \<and> view_eq v (ledger_view net)))"
proof -
  from assms(1) have "list_all2 (adopts (ledger_view net)) (agents net) (agents net') \<and>
      ledger_view net' = ledger_view net"
  proof
    assume "run_round H net w = Inr (c, net', w')"
    from run_round_effect [OF this] show ?thesis by simp
  next
    assume "deliver_loop ms (net, w) = Inr (net', w')"
    from deliver_loop_Inr [OF this] show ?thesis by (simp add: frame_def)
  qed
  then have "adopts (ledger_view net) (agents net ! i) (agents net' ! i)" and
    L: "ledger_view net' = ledger_view net"
    using assms(2) by (simp_all add: list_all2_conv_all_nth)
  with assms(3) show ?thesis
    by (auto simp: adopts_def)
qed

lemma ex_round1_runs: "run_round demo_hash ex_net demo_world = Inr ex_round1"
proof -
  have "\<not> isl (run_round demo_hash ex_net demo_world)" by code_simp
  then show ?thesis
    by (cases "run_round demo_hash ex_net demo_world") (simp_all add: ex_round1_def)
qed

lemma ex_round2_runs:
  "run_round demo_hash (fst (snd ex_round1)) (snd (snd ex_round1)) = Inr ex_round2"
proof -
  have "\<not> isl (run_round demo_hash (fst (snd ex_round1)) (snd (snd ex_round1)))" by code_simp
  then show ?thesis
    by (cases "run_round demo_hash (fst (snd ex_round1)) (snd (snd ex_round1))")
      (simp_all add: ex_round2_def)
qed

theorem conservative_adoption_witness:
  "1 < length (agents ex_net) \<and> \<not> is_byzantine (agents ex_net ! 1) \<and>
   local_view (agents ex_net ! 1) = Some ex_stale_view \<and>
   ledger_view (fst (snd ex_round1)) = ledger_view ex_net \<and>
   (local_view (agents (fst (snd ex_round1)) ! 1) = local_view (agents ex_net ! 1) \<or>
    (\<exists>v. local_view (agents (fst (snd ex_round1)) ! 1) = Some v \<and>
         view_eq v (ledger_view ex_net)))"
proof -
  have r: "run_round demo_hash ex_net demo_world =
             Inr (fst ex_round1, fst (snd ex_round1), snd (snd ex_round1)) \<or>
           deliver_loop [] (ex_net, demo_world) =
             Inr (fst (snd ex_round1), snd (snd ex_round1))"
    by (simp add: ex_round1_runs)
  have i: "1 < length (agents ex_net)" by (simp add: ex_net_def)
  have h: "\<not> is_byzantine (agents ex_net ! 1)"
    by (simp add: ex_net_def ex_stale_def is_byzantine_def)
  have v: "local_view (agents ex_net ! 1) = Some ex_stale_view"
    by (simp add: ex_net_def ex_stale_def)
  from conservative_adoption [OF r i h] i h v show ?thesis by simp
qed




subsection \<open>Message accounting\<close>

lemma list_all2_adopts_ids:
  assumes "list_all2 (adopts L) xs ys"
  shows "map agent_id ys = map agent_id xs \<and> map agent_type ys = map agent_type xs"
  using assms by (induction rule: list_all2_induct) (simp_all add: adopts_def)

lemma initialize_views_facts:
  assumes "initialize_views H d as w = (as', w')"
  shows "map agent_id as' = map agent_id as \<and> map agent_type as' = map agent_type as \<and>
         map messages_sent as' = map messages_sent as \<and> (\<forall>a \<in> set as'. local_view a \<noteq> None)"
  using assms
proof (induction as arbitrary: w as')
  case Nil
  then show ?case by simp
next
  case (Cons a rest)
  show ?case
  proof (cases "is_byzantine a")
    case True
    with Cons.prems obtain w2 rest' v where
      "initialize_views H d rest w2 = (rest', w')" and "as' = a\<lparr>local_view := Some v\<rparr> # rest'"
      by (auto split: prod.splits)
    with Cons.IH show ?thesis by auto
  next
    case False
    with Cons.prems obtain w2 rest' v where
      "initialize_views H d rest w2 = (rest', w')" and "as' = a\<lparr>local_view := Some v\<rparr> # rest'"
      by (auto split: prod.splits)
    with Cons.IH show ?thesis by auto
  qed
qed

lemma init_Inr:
  assumes "init H n f k d w = Inr (net, w')"
  shows "n_agents net = n \<and> f_byzantine net = f \<and> fanout net = min k (n - 1) \<and>
         round_num net = 0 \<and> total_messages net = 0 \<and> convergence_round net = None \<and>
         map agent_id (agents net) = py_range n \<and>
         (\<forall>a \<in> set (agents net). messages_sent a = 0 \<and> local_view a \<noteq> None) \<and>
         (\<exists>byzantine_ids w1. random_sample (py_range n) f w = Inr (byzantine_ids, w1) \<and>
            map agent_type (agents net) =
              map (\<lambda>i. if i \<in> set byzantine_ids then BYZANTINE else HONEST) (py_range n))"
proof -
  from assms obtain byzantine_ids w1 where
    rs: "random_sample (py_range n) f w = Inr (byzantine_ids, w1)"
    by (auto simp: init_def split: sum.splits)
  define fresh where "fresh = map (\<lambda>i. \<lparr>agent_id = i,
                  agent_type = (if i \<in> set byzantine_ids then BYZANTINE else HONEST),
                  local_view = None, peers = [], messages_sent = 0,
                  messages_received = 0, ledger_queries = 0\<rparr>) (py_range n)"
  obtain t w2 where t: "time_time w1 = (t, w2)" by (cases "time_time w1")
  obtain ags w3 where iv: "initialize_views H d fresh w2 = (ags, w3)"
    by (cases "initialize_views H d fresh w2")
  note iv' = iv [unfolded fresh_def]
  from assms have "Inr (\<lparr>n_agents = n, f_byzantine = f, fanout = min k (n - 1),
        net_did = d, agents = ags,
        ledger_view = \<lparr>did = d, version = 10, doc_hash = H ''ledger_doc_v10'', timestamp = t\<rparr>,
        round_num = 0, total_messages = 0, total_ledger_queries = 0,
        convergence_round = None\<rparr>, w3) = (Inr (net, w') :: error + Network \<times> world)"
    unfolding init_def Let_def rs sum.case prod.case t iv' .
  then have net: "net = \<lparr>n_agents = n, f_byzantine = f, fanout = min k (n - 1),
        net_did = d, agents = ags,
        ledger_view = \<lparr>did = d, version = 10, doc_hash = H ''ledger_doc_v10'', timestamp = t\<rparr>,
        round_num = 0, total_messages = 0, total_ledger_queries = 0,
        convergence_round = None\<rparr>"
    by simp
  from initialize_views_facts [OF iv] have
    ids: "map agent_id ags = py_range n" and
    types: "map agent_type ags =
       map (\<lambda>i. if i \<in> set byzantine_ids then BYZANTINE else HONEST) (py_range n)" and
    sent: "map messages_sent ags = map (\<lambda>i. 0) (py_range n)" and
    views: "\<forall>a \<in> set ags. local_view a \<noteq> None"
    by (simp_all add: fresh_def comp_def)
  have zero: "\<forall>a \<in> set ags. messages_sent a = 0"
  proof
    fix a assume "a \<in> set ags"
    then have "messages_sent a \<in> set (map messages_sent ags)" by simp
    then show "messages_sent a = 0" unfolding sent by auto
  qed
  have "\<exists>byzantine_ids w1. random_sample (py_range n) f w = Inr (byzantine_ids, w1) \<and>
            map agent_type (agents net) =
              map (\<lambda>i. if i \<in> set byzantine_ids then BYZANTINE else HONEST) (py_range n)"
    using rs types by (intro exI [of _ byzantine_ids] exI [of _ w1]) (simp add: net)
  moreover have "n_agents net = n \<and> f_byzantine net = f \<and> fanout net = min k (n - 1) \<and>
         round_num net = 0 \<and> total_messages net = 0 \<and> convergence_round net = None \<and>
         map agent_id (agents net) = py_range n"
    by (simp add: net ids)
  moreover have "\<forall>a \<in> set (agents net). messages_sent a = 0 \<and> local_view a \<noteq> None"
    using zero views by (simp add: net)
  ultimately show ?thesis by blast
qed

lemma ids_ok_in_range:
  assumes "ids_ok net" and "a \<in> set (agents net)"
  shows "0 \<le> agent_id a \<and> agent_id a < n_agents net"
proof -
  from assms(2) have "agent_id a \<in> set (map agent_id (agents net))" by simp
  with assms(1) show ?thesis by (simp add: ids_ok_def py_range_set)
qed

lemma ids_ok_length: "ids_ok net \<Longrightarrow> int (length (agents net)) = max 0 (n_agents net)"
proof -
  assume "ids_ok net"
  then have "length (map agent_id (agents net)) = length (py_range (n_agents net))"
    by (simp add: ids_ok_def)
  then show ?thesis by (simp add: py_range_length)
qed

lemma run_round_counts:
  assumes "ids_ok net" and "run_round H net w = Inr (c, net', w')"
  shows "ids_ok net' \<and>
         total_messages net' = total_messages net + fanout net * int (length (agents net)) \<and>
         map messages_sent (agents net') = map (\<lambda>a. messages_sent a + fanout net) (agents net)"
proof -
  from assms(2) obtain net2 rm w1 net3 where
    e: "emit_phase H net w = Inr (net2, rm, w1)" and
    d: "deliver_loop rm (net2, w1) = Inr (net3, w')" and
    cc: "check_convergence net3 = (c, net')"
    by (rule run_round_Inr)
  let ?net1 = "net\<lparr>round_num := round_num net + 1\<rparr>"
  from e obtain ags tm where
    el: "emit_loop H ?net1 (agents ?net1) ([], total_messages ?net1, w) = Inr (ags, rm, tm, w1)" and
    n2: "net2 = ?net1\<lparr>agents := ags, total_messages := tm\<rparr>"
    by (auto simp: emit_phase_def Let_def split: sum.splits)
  have rng: "\<forall>a \<in> set (agents ?net1). 0 \<le> agent_id a \<and> agent_id a < n_agents ?net1"
    using ids_ok_in_range [OF assms(1)] by simp
  have cap: "fanout ?net1 \<le> n_agents ?net1 - 1" using assms(1) by (simp add: ids_ok_def)
  from emit_loop_counts [OF el rng cap] have
    sent2: "map messages_sent ags = map (\<lambda>a. messages_sent a + fanout net) (agents net)" and
    tm: "tm = total_messages net + fanout net * int (length (agents net))"
    by simp_all
  from emit_loop_shape [OF el] have
    "list_all2 (\<lambda>a a'. agent_id a' = agent_id a \<and> agent_type a' = agent_type a \<and>
                        local_view a' = local_view a) (agents net) ags"
    by auto
  then have "list_all2 (adopts (ledger_view net)) (agents net) ags"
    by (rule list_all2_same_adopts)
  then have ids2: "map agent_id ags = map agent_id (agents net)"
    by (simp add: list_all2_adopts_ids)
  from deliver_loop_Inr [OF d] have
    f3: "frame net2 net3" and
    a3: "list_all2 (adopts (ledger_view net2)) (agents net2) (agents net3)" and
    s3: "map messages_sent (agents net3) = map messages_sent (agents net2)"
    by simp_all
  from a3 have ids3: "map agent_id (agents net3) = map agent_id ags"
    by (simp add: list_all2_adopts_ids n2)
  from cc have n': "net' = (if all_honest_at_ledger net3 \<and> convergence_round net3 = None
                 then net3\<lparr>convergence_round := Some (round_num net3)\<rparr> else net3)"
    unfolding check_convergence_eq by blast
  have same: "agents net' = agents net3" "n_agents net' = n_agents net3"
    "fanout net' = fanout net3" "total_messages net' = total_messages net3"
    by (simp_all add: n')
  from f3 have f: "n_agents net3 = n_agents net" "fanout net3 = fanout net"
    "total_messages net3 = tm"
    by (simp_all add: frame_def n2)
  have "ids_ok net'"
    using assms(1) by (simp add: ids_ok_def same f ids3 ids2)
  moreover have "total_messages net' = total_messages net + fanout net * int (length (agents net))"
    by (simp add: same f tm)
  moreover have "map messages_sent (agents net') =
      map (\<lambda>a. messages_sent a + fanout net) (agents net)"
    by (simp add: same s3 n2 sent2)
  ultimately show ?thesis by simp
qed

lemma run_rounds_counts:
  assumes "ids_ok net" and "run_rounds H r net w = Inr (net', w')"
  shows "ids_ok net' \<and> fanout net' = fanout net \<and> length (agents net') = length (agents net) \<and>
         round_num net' = round_num net + int r \<and>
         total_messages net' =
           total_messages net + fanout net * int (length (agents net)) * int r \<and>
         map messages_sent (agents net') =
           map (\<lambda>a. messages_sent a + fanout net * int r) (agents net)"
  using assms
proof (induction r arbitrary: net w)
  case 0
  then show ?case by simp
next
  case (Suc r)
  from Suc.prems(2) obtain c n1 w1 where
    r1: "run_round H net w = Inr (c, n1, w1)" and rest: "run_rounds H r n1 w1 = Inr (net', w')"
    by (auto split: sum.splits)
  from run_round_counts [OF Suc.prems(1) r1] have
    ok1: "ids_ok n1" and
    t1: "total_messages n1 = total_messages net + fanout net * int (length (agents net))" and
    s1: "map messages_sent (agents n1) = map (\<lambda>a. messages_sent a + fanout net) (agents net)"
    by simp_all
  from run_round_effect [OF r1] have
    f1: "fanout n1 = fanout net" "round_num n1 = round_num net + 1"
    by simp_all
  from s1 have l1: "length (agents n1) = length (agents net)"
    by (metis length_map)
  from Suc.IH [OF ok1 rest] have
    ok: "ids_ok net'" and f: "fanout net' = fanout n1" and
    l: "length (agents net') = length (agents n1)" and
    rn: "round_num net' = round_num n1 + int r" and
    t: "total_messages net' = total_messages n1 + fanout n1 * int (length (agents n1)) * int r" and
    s: "map messages_sent (agents net') =
           map (\<lambda>a. messages_sent a + fanout n1 * int r) (agents n1)"
    by simp_all
  have "map messages_sent (agents net') =
      map (\<lambda>x. x + fanout net * int r) (map messages_sent (agents n1))"
    by (simp add: s f1 comp_def)
  also have "\<dots> = map (\<lambda>a. messages_sent a + fanout net * int (Suc r)) (agents net)"
    by (simp add: s1 comp_def algebra_simps)
  finally have s': "map messages_sent (agents net') =
      map (\<lambda>a. messages_sent a + fanout net * int (Suc r)) (agents net)" .
  from ok f l rn t s' show ?case
    by (simp add: f1 l1 t1 algebra_simps)
qed

lemma emit_loop_per_sender:
  assumes "emit_loop H net as (rm, tm, w) = Inr (as', rm', tm', w')"
    and "distinct (map agent_id as)"
    and "\<forall>a \<in> set as. 0 \<le> agent_id a \<and> agent_id a < n_agents net"
    and "fanout net \<le> n_agents net - 1"
  shows "\<exists>new. rm' = rm @ new \<and>
     (\<forall>m \<in> set new. sender m \<in> agent_id ` set as \<and> receiver m \<noteq> sender m \<and>
        0 \<le> receiver m \<and> receiver m < n_agents net) \<and>
     (\<forall>a \<in> set as.
        int (length (filter (\<lambda>m. sender m = agent_id a) new)) = fanout net \<and>
        distinct (map receiver (filter (\<lambda>m. sender m = agent_id a) new)))"
  using assms(1,2,3)
proof (induction as arbitrary: rm tm w as')
  case Nil
  then show ?case by simp
next
  case (Cons a rest)
  from Cons.prems(1) obtain ps w1 msg w2 rest' where
    sp: "select_peers net (agent_id a) w = Inr (ps, w1)" and
    sm: "sender msg = agent_id a" and
    rec: "emit_loop H net rest (rm @ map (msg_copy msg) ps, tm + int (length ps), w2) =
       Inr (rest', rm', tm', w')"
    by (rule emit_loop_step)
  from Cons.prems(2) have d: "distinct (map agent_id rest)" and
    notin: "agent_id a \<notin> agent_id ` set rest" by simp_all
  from Cons.prems(3) have ra: "0 \<le> agent_id a" "agent_id a < n_agents net" and
    rr: "\<forall>a \<in> set rest. 0 \<le> agent_id a \<and> agent_id a < n_agents net"
    by simp_all
  from ra have "int (length (filter (\<lambda>i. i \<noteq> agent_id a) (py_range (n_agents net)))) =
      n_agents net - 1"
    by (rule others_length)
  with select_peers_Inr [OF sp] assms(4) have
    ps: "\<forall>p \<in> set ps. 0 \<le> p \<and> p < n_agents net \<and> p \<noteq> agent_id a" "distinct ps"
      "int (length ps) = fanout net"
    by simp_all
  from Cons.IH [OF rec d rr] obtain new where
    n1: "rm' = (rm @ map (msg_copy msg) ps) @ new" and
    n2: "\<forall>m \<in> set new. sender m \<in> agent_id ` set rest \<and> receiver m \<noteq> sender m \<and>
        0 \<le> receiver m \<and> receiver m < n_agents net" and
    n3: "\<forall>b \<in> set rest.
        int (length (filter (\<lambda>m. sender m = agent_id b) new)) = fanout net \<and>
        distinct (map receiver (filter (\<lambda>m. sender m = agent_id b) new))"
    by blast
  let ?mine = "map (msg_copy msg) ps"
  have mine_all: "filter (\<lambda>m. sender m = agent_id a) ?mine = ?mine"
    by (simp add: msg_copy_def sm)
  have mine_recv: "map receiver ?mine = ps"
    by (simp add: msg_copy_def comp_def)
  have rest_none: "filter (\<lambda>m. sender m = agent_id a) new = []"
  proof -
    have "sender m \<noteq> agent_id a" if "m \<in> set new" for m
      using n2 notin that by metis
    then show ?thesis by (simp add: filter_empty_conv)
  qed
  have mine_none: "filter (\<lambda>m. sender m = agent_id b) ?mine = []" if "b \<in> set rest" for b
  proof -
    from that notin have "agent_id b \<noteq> agent_id a" by (metis image_eqI)
    then show ?thesis by (simp add: filter_empty_conv msg_copy_def sm)
  qed
  have "rm' = rm @ (?mine @ new)" using n1 by simp
  moreover have "\<forall>m \<in> set (?mine @ new). sender m \<in> agent_id ` set (a # rest) \<and>
      receiver m \<noteq> sender m \<and> 0 \<le> receiver m \<and> receiver m < n_agents net"
  proof
    fix m assume "m \<in> set (?mine @ new)"
    then consider p where "p \<in> set ps" "m = msg_copy msg p" | "m \<in> set new" by auto
    then show "sender m \<in> agent_id ` set (a # rest) \<and>
      receiver m \<noteq> sender m \<and> 0 \<le> receiver m \<and> receiver m < n_agents net"
    proof cases
      case 1
      with ps(1) sm show ?thesis by (auto simp: msg_copy_def)
    next
      case 2
      with n2 show ?thesis by auto
    qed
  qed
  moreover have "\<forall>b \<in> set (a # rest).
        int (length (filter (\<lambda>m. sender m = agent_id b) (?mine @ new))) = fanout net \<and>
        distinct (map receiver (filter (\<lambda>m. sender m = agent_id b) (?mine @ new)))"
  proof
    fix b assume "b \<in> set (a # rest)"
    then consider "b = a" | "b \<in> set rest" by auto
    then show "int (length (filter (\<lambda>m. sender m = agent_id b) (?mine @ new))) = fanout net \<and>
        distinct (map receiver (filter (\<lambda>m. sender m = agent_id b) (?mine @ new)))"
    proof cases
      case 1
      have "filter (\<lambda>m. sender m = agent_id a) (?mine @ new) = ?mine"
        unfolding filter_append mine_all rest_none by simp
      with ps(2,3) mine_recv 1 show ?thesis by simp
    next
      case 2
      have "filter (\<lambda>m. sender m = agent_id b) (?mine @ new) =
          filter (\<lambda>m. sender m = agent_id b) new"
        unfolding filter_append mine_none [OF 2] by simp
      with n3 2 show ?thesis by simp
    qed
  qed
  ultimately show ?case by blast
qed

lemma emit_phase_messages:
  assumes "ids_ok net" and "emit_phase H net w = Inr (net2, rm, w1)"
  shows "int (length rm) = fanout net * int (length (agents net)) \<and>
     (\<forall>a \<in> set (agents net).
        int (length (filter (\<lambda>m. sender m = agent_id a) rm)) = fanout net \<and>
        distinct (map receiver (filter (\<lambda>m. sender m = agent_id a) rm))) \<and>
     (\<forall>m \<in> set rm. sender m \<in> agent_id ` set (agents net) \<and> receiver m \<noteq> sender m \<and>
        0 \<le> receiver m \<and> receiver m < n_agents net)"
proof -
  define net1 where "net1 = net\<lparr>round_num := round_num net + 1\<rparr>"
  have f: "agents net1 = agents net" "n_agents net1 = n_agents net" "fanout net1 = fanout net"
    "total_messages net1 = total_messages net"
    by (simp_all add: net1_def)
  from assms(2) have "\<not> isl (emit_loop H net1 (agents net1) ([], total_messages net1, w))"
    by (auto simp: emit_phase_def Let_def net1_def split: sum.splits)
  then obtain r where r: "emit_loop H net1 (agents net1) ([], total_messages net1, w) = Inr r"
    by (cases "emit_loop H net1 (agents net1) ([], total_messages net1, w)") simp_all
  obtain ags rm0 tm w0 where r4: "r = (ags, rm0, tm, w0)" by (cases r)
  from assms(2) r have "rm0 = rm"
    by (simp add: emit_phase_def Let_def net1_def [symmetric] r4)
  with r r4 have
    e: "emit_loop H net1 (agents net1) ([], total_messages net1, w) = Inr (ags, rm, tm, w0)"
    by simp
  from assms(1) have ids: "map agent_id (agents net1) = py_range (n_agents net1)" and
    cap: "fanout net1 \<le> n_agents net1 - 1"
    by (simp_all add: ids_ok_def f)
  have d: "distinct (map agent_id (agents net1))"
    unfolding ids by (rule py_range_distinct)
  have rng: "\<forall>a \<in> set (agents net1). 0 \<le> agent_id a \<and> agent_id a < n_agents net1"
    using ids_ok_in_range [OF assms(1)] by (simp add: f)
  note per = emit_loop_per_sender [OF e d rng cap, unfolded append_Nil f]
  note cnt = emit_loop_counts [OF e rng cap, unfolded f]
  note shp = emit_loop_shape [OF e, unfolded append_Nil f]
  from shp cnt have "int (length rm) = fanout net * int (length (agents net))"
    by auto
  moreover from per obtain new where eq: "rm = new" and
    pa: "\<forall>m \<in> set new. sender m \<in> agent_id ` set (agents net) \<and> receiver m \<noteq> sender m \<and>
        0 \<le> receiver m \<and> receiver m < n_agents net" and
    pb: "\<forall>a \<in> set (agents net).
        int (length (filter (\<lambda>m. sender m = agent_id a) new)) = fanout net \<and>
        distinct (map receiver (filter (\<lambda>m. sender m = agent_id a) new))"
    by blast
  note pa [folded eq] pb [folded eq]
  ultimately show ?thesis by blast
qed

text \<open>
  Claim C5. In a session built by the constructor for \<open>n\<close> agents and a requested fanout
  \<open>k\<close>, the fanout is \<open>k\<close> capped at \<open>n - 1\<close>, and after \<open>r\<close> executed rounds every agent has
  sent exactly fanout times \<open>r\<close> messages; the network's message total equals the sum of
  the agents' sent counters, and both equal fanout times the number of agents times \<open>r\<close>.
  The counters count real messages: in the next round, as in every round, the list of
  messages of the round holds exactly fanout messages of every agent, to distinct peers
  other than itself, and nothing else.
\<close>

theorem message_accounting:
  assumes "init H n f k d w = Inr (net0, w0)" and "run_rounds H r net0 w0 = Inr (net, w')"
  shows "fanout net = min k (n - 1) \<and> length (agents net) = nat n \<and> round_num net = int r \<and>
         (\<forall>a \<in> set (agents net). messages_sent a = fanout net * int r) \<and>
         total_messages net = sum_list (map messages_sent (agents net)) \<and>
         total_messages net = fanout net * int (length (agents net)) * int r \<and>
         (\<forall>net2 rm w1. emit_phase H net w' = Inr (net2, rm, w1) \<longrightarrow>
            int (length rm) = fanout net * int (length (agents net)) \<and>
            (\<forall>a \<in> set (agents net).
               int (length (filter (\<lambda>m. sender m = agent_id a) rm)) = fanout net \<and>
               distinct (map receiver (filter (\<lambda>m. sender m = agent_id a) rm))) \<and>
            (\<forall>m \<in> set rm. sender m \<in> agent_id ` set (agents net) \<and>
               receiver m \<noteq> sender m \<and> 0 \<le> receiver m \<and> receiver m < n))"
proof -
  from init_Inr [OF assms(1)] have
    i: "n_agents net0 = n" "fanout net0 = min k (n - 1)" "round_num net0 = 0"
      "total_messages net0 = 0" "map agent_id (agents net0) = py_range n" and
    z: "\<forall>a \<in> set (agents net0). messages_sent a = 0"
    by simp_all
  have ok: "ids_ok net0" by (simp add: ids_ok_def i)
  from i(5) have len0: "length (agents net0) = nat n"
    by (metis length_map py_range_length)
  from run_rounds_counts [OF ok assms(2)] have
    ok': "ids_ok net" and
    f: "fanout net = fanout net0" and l: "length (agents net) = length (agents net0)" and
    rn: "round_num net = round_num net0 + int r" and
    t: "total_messages net =
          total_messages net0 + fanout net0 * int (length (agents net0)) * int r" and
    s: "map messages_sent (agents net) =
          map (\<lambda>a. messages_sent a + fanout net0 * int r) (agents net0)"
    by simp_all
  from run_rounds_effect [OF assms(2)] have na: "n_agents net = n" by (simp add: i)
  from z have s': "map messages_sent (agents net) = map (\<lambda>a. fanout net0 * int r) (agents net0)"
    unfolding s by (intro map_cong) simp_all
  have each: "\<forall>a \<in> set (agents net). messages_sent a = fanout net * int r"
  proof
    fix a assume "a \<in> set (agents net)"
    then have "messages_sent a \<in> set (map messages_sent (agents net))" by simp
    then show "messages_sent a = fanout net * int r"
      unfolding s' by (auto simp: f)
  qed
  have "sum_list (map messages_sent (agents net)) =
      fanout net0 * int r * int (length (agents net0))"
    unfolding s' by (simp add: sum_list_triv)
  with f l rn t each len0 have counters:
    "fanout net = min k (n - 1) \<and> length (agents net) = nat n \<and> round_num net = int r \<and>
         (\<forall>a \<in> set (agents net). messages_sent a = fanout net * int r) \<and>
         total_messages net = sum_list (map messages_sent (agents net)) \<and>
         total_messages net = fanout net * int (length (agents net)) * int r"
    by (simp add: i algebra_simps)
  have "\<forall>net2 rm w1. emit_phase H net w' = Inr (net2, rm, w1) \<longrightarrow>
            int (length rm) = fanout net * int (length (agents net)) \<and>
            (\<forall>a \<in> set (agents net).
               int (length (filter (\<lambda>m. sender m = agent_id a) rm)) = fanout net \<and>
               distinct (map receiver (filter (\<lambda>m. sender m = agent_id a) rm))) \<and>
            (\<forall>m \<in> set rm. sender m \<in> agent_id ` set (agents net) \<and>
               receiver m \<noteq> sender m \<and> 0 \<le> receiver m \<and> receiver m < n)"
    using emit_phase_messages [OF ok'] unfolding na by blast
  with counters show ?thesis by blast
qed

lemma ex_init_runs: "init demo_hash 3 1 5 ''did:example:123'' demo_world = Inr ex_init"
proof -
  have "\<not> isl (init demo_hash 3 1 5 ''did:example:123'' demo_world)" by code_simp
  then show ?thesis
    by (cases "init demo_hash 3 1 5 ''did:example:123'' demo_world") (simp_all add: ex_init_def)
qed

lemma ex_two_rounds_runs:
  "run_rounds demo_hash 2 (fst ex_init) (snd ex_init) = Inr ex_two_rounds"
proof -
  have "\<not> isl (run_rounds demo_hash 2 (fst ex_init) (snd ex_init))" by code_simp
  then show ?thesis
    by (cases "run_rounds demo_hash 2 (fst ex_init) (snd ex_init)")
      (simp_all add: ex_two_rounds_def)
qed

theorem message_accounting_witness:
  "fanout (fst ex_two_rounds) = 2 \<and> length (agents (fst ex_two_rounds)) = 3 \<and>
   round_num (fst ex_two_rounds) = 2 \<and>
   total_messages (fst ex_two_rounds) = sum_list (map messages_sent (agents (fst ex_two_rounds))) \<and>
   total_messages (fst ex_two_rounds) = 12 \<and>
   \<not> isl (emit_phase demo_hash (fst ex_two_rounds) (snd ex_two_rounds)) \<and>
   int (length ex_third_emitted) = 6 \<and>
   int (length (filter (\<lambda>m. sender m = agent_id (agents (fst ex_two_rounds) ! 1))
          ex_third_emitted)) = 2"
proof -
  have i: "init demo_hash 3 1 5 ''did:example:123'' demo_world = Inr (fst ex_init, snd ex_init)"
    by (simp add: ex_init_runs)
  have r: "run_rounds demo_hash 2 (fst ex_init) (snd ex_init) =
             Inr (fst ex_two_rounds, snd ex_two_rounds)"
    by (simp add: ex_two_rounds_runs)
  note m = message_accounting [OF i r]
  have f: "fanout (fst ex_two_rounds) = 2" using m by simp
  have l: "length (agents (fst ex_two_rounds)) = 3" using m by simp
  have n: "round_num (fst ex_two_rounds) = 2" using m by simp
  have s: "total_messages (fst ex_two_rounds) =
          sum_list (map messages_sent (agents (fst ex_two_rounds)))"
    using m by blast
  have t: "total_messages (fst ex_two_rounds) =
          fanout (fst ex_two_rounds) * int (length (agents (fst ex_two_rounds))) * int 2"
    using m by blast
  from t have t12: "total_messages (fst ex_two_rounds) = 12" unfolding f l by simp
  have e0: "\<not> isl (emit_phase demo_hash (fst ex_two_rounds) (snd ex_two_rounds))" by code_simp
  then obtain net2 w1 where
    e: "emit_phase demo_hash (fst ex_two_rounds) (snd ex_two_rounds) =
          Inr (net2, ex_third_emitted, w1)"
    by (cases "emit_phase demo_hash (fst ex_two_rounds) (snd ex_two_rounds)")
      (auto simp: ex_third_emitted_def)
  from m e have
    len: "int (length ex_third_emitted) =
            fanout (fst ex_two_rounds) * int (length (agents (fst ex_two_rounds)))" and
    per: "\<forall>a \<in> set (agents (fst ex_two_rounds)).
            int (length (filter (\<lambda>m. sender m = agent_id a) ex_third_emitted)) =
              fanout (fst ex_two_rounds)"
    by blast+
  from len have len6: "int (length ex_third_emitted) = 6" unfolding f l by simp
  from l have "agents (fst ex_two_rounds) ! 1 \<in> set (agents (fst ex_two_rounds))" by simp
  with per f have p1: "int (length (filter (\<lambda>m. sender m = agent_id (agents (fst ex_two_rounds) ! 1))
          ex_third_emitted)) = 2"
    by simp
  from f l n s t12 e0 len6 p1 show ?thesis by (intro conjI)
qed

lemma handle_summary_succeeds:
  assumes "local_view rcv \<noteq> None" and "view m \<noteq> None"
  shows "\<exists>r' net' w'. handle_summary net rcv m w = Inr (r', net', w')"
proof (cases "is_byzantine rcv")
  case True
  then show ?thesis by (simp add: handle_summary_byzantine)
next
  case False
  from assms obtain lv sv where "local_view rcv = Some lv" "view m = Some sv" by auto
  from handle_summary_honest [OF False this(2) this(1)] show ?thesis by simp
qed

lemma deliver_loop_succeeds:
  assumes "\<forall>m \<in> set ms. 0 \<le> receiver m \<and> receiver m < int (length (agents net)) \<and> view m \<noteq> None"
    and "\<forall>a \<in> set (agents net). local_view a \<noteq> None"
  shows "\<exists>net' w'. deliver_loop ms (net, w) = Inr (net', w')"
  using assms
proof (induction ms arbitrary: net w)
  case Nil
  then show ?case by simp
next
  case (Cons m ms)
  from Cons.prems(1) have rng: "0 \<le> receiver m" "receiver m < int (length (agents net))" and
    vm: "view m \<noteq> None" by simp_all
  define i where "i = nat (receiver m)"
  have pi: "py_index (agents net) (receiver m) = Inr i"
    using rng by (simp add: py_index_in_range i_def)
  have il: "i < length (agents net)" using rng by (simp add: i_def)
  with Cons.prems(2) have "local_view (agents net ! i) \<noteq> None" by simp
  from handle_summary_succeeds [OF this vm] obtain r' n1 w1 where
    h: "handle_summary net (agents net ! i) m w = Inr (r', n1, w1)" by blast
  from handle_summary_Inr [OF h] have
    ad: "adopts (ledger_view net) (agents net ! i) r'" and ag: "agents n1 = agents net"
    by simp_all
  from ad \<open>local_view (agents net ! i) \<noteq> None\<close> have r': "local_view r' \<noteq> None"
    by (auto simp: adopts_def)
  define n2 where "n2 = n1\<lparr>agents := (agents n1)[i := r']\<rparr>"
  have a2: "agents n2 = (agents net)[i := r']" by (simp add: n2_def ag)
  have "\<forall>a \<in> set (agents n2). local_view a \<noteq> None"
  proof
    fix a assume "a \<in> set (agents n2)"
    then have "a \<in> insert r' (set (agents net))"
      unfolding a2 using set_update_subset_insert by fast
    with r' Cons.prems(2) show "local_view a \<noteq> None" by auto
  qed
  moreover have "\<forall>m \<in> set ms. 0 \<le> receiver m \<and> receiver m < int (length (agents n2)) \<and>
      view m \<noteq> None"
    using Cons.prems(1) by (simp add: a2)
  ultimately obtain net' w' where "deliver_loop ms (n2, w1) = Inr (net', w')"
    using Cons.IH by blast
  then show ?case
    by (simp add: pi h n2_def)
qed

lemma run_round_succeeds:
  assumes "runnable net"
  shows "\<exists>c net' w'. run_round H net w = Inr (c, net', w')"
proof -
  let ?net1 = "net\<lparr>round_num := round_num net + 1\<rparr>"
  from assms have ok: "ids_ok net" and views: "\<forall>a \<in> set (agents net). local_view a \<noteq> None" and
    fo: "0 \<le> fanout ?net1 \<or> agents ?net1 = []"
    by (simp_all add: runnable_def)
  from emit_loop_succeeds [OF fo] obtain ags rm tm w1 where
    "emit_loop H ?net1 (agents ?net1) ([], total_messages ?net1, w) = Inr (ags, rm, tm, w1)"
    by (metis prod_cases4)
  then have e: "emit_phase H net w = Inr (?net1\<lparr>agents := ags, total_messages := tm\<rparr>, rm, w1)"
    by (simp add: emit_phase_def Let_def)
  define net2 where "net2 = ?net1\<lparr>agents := ags, total_messages := tm\<rparr>"
  from emit_phase_Inr [OF e] have
    same: "list_all2 (\<lambda>a a'. agent_id a' = agent_id a \<and> agent_type a' = agent_type a \<and>
                        local_view a' = local_view a) (agents net) (agents net2)" and
    msgs: "\<forall>m \<in> set rm. 0 \<le> receiver m \<and> receiver m < n_agents net \<and>
            (\<exists>a \<in> set (agents net). sender m = agent_id a \<and>
               ((is_byzantine a \<and> view m \<noteq> None) \<or> view m = local_view a))"
    by (simp_all add: net2_def)
  from same have len: "length (agents net2) = length (agents net)"
    by (simp add: list_all2_lengthD)
  have v2: "\<forall>a \<in> set (agents net2). local_view a \<noteq> None"
  proof
    fix a assume "a \<in> set (agents net2)"
    then obtain i where "i < length (agents net2)" "a = agents net2 ! i"
      by (metis in_set_conv_nth)
    with same len views show "local_view a \<noteq> None"
      by (simp add: list_all2_conv_all_nth)
  qed
  have m2: "\<forall>m \<in> set rm. 0 \<le> receiver m \<and> receiver m < int (length (agents net2)) \<and>
      view m \<noteq> None"
  proof
    fix m assume m: "m \<in> set rm"
    with msgs have r: "0 \<le> receiver m" "receiver m < n_agents net" and
      s: "\<exists>a \<in> set (agents net). sender m = agent_id a \<and>
               ((is_byzantine a \<and> view m \<noteq> None) \<or> view m = local_view a)"
      by simp_all
    from s views have "view m \<noteq> None" by auto
    moreover from r ids_ok_length [OF ok] have "receiver m < int (length (agents net2))"
      by (simp add: len)
    ultimately show "0 \<le> receiver m \<and> receiver m < int (length (agents net2)) \<and> view m \<noteq> None"
      using r by simp
  qed
  from deliver_loop_succeeds [OF m2 v2] obtain net3 w2 where
    "deliver_loop rm (net2, w1) = Inr (net3, w2)" by blast
  with e show ?thesis
    by (simp add: run_round_def net2_def split: prod.splits)
qed

lemma run_round_runnable:
  assumes "runnable net" and "run_round H net w = Inr (c, net', w')"
  shows "runnable net'"
proof -
  from assms(1) have ok: "ids_ok net" and views: "\<forall>a \<in> set (agents net). local_view a \<noteq> None" and
    fo: "0 \<le> fanout net \<or> agents net = []"
    by (simp_all add: runnable_def)
  from run_round_counts [OF ok assms(2)] have ok': "ids_ok net'" by simp
  from run_round_effect [OF assms(2)] have
    a: "list_all2 (adopts (ledger_view net)) (agents net) (agents net')" and
    f: "fanout net' = fanout net"
    by simp_all
  from a have len: "length (agents net') = length (agents net)"
    by (simp add: list_all2_lengthD)
  have "\<forall>a \<in> set (agents net'). local_view a \<noteq> None"
  proof
    fix b assume "b \<in> set (agents net')"
    then obtain i where i: "i < length (agents net')" "b = agents net' ! i"
      by (metis in_set_conv_nth)
    with a have "adopts (ledger_view net) (agents net ! i) b"
      by (simp add: list_all2_conv_all_nth)
    moreover from i len views have "local_view (agents net ! i) \<noteq> None" by simp
    ultimately show "local_view b \<noteq> None" by (auto simp: adopts_def)
  qed
  moreover from fo len f have "0 \<le> fanout net' \<or> agents net' = []" by auto
  ultimately show ?thesis using ok' by (simp add: runnable_def)
qed

lemma run_rounds_succeeds:
  assumes "runnable net"
  shows "\<exists>net' w'. run_rounds H r net w = Inr (net', w')"
  using assms
proof (induction r arbitrary: net w)
  case 0
  then show ?case by simp
next
  case (Suc r)
  from run_round_succeeds [OF Suc.prems] obtain c n1 w1 where
    r1: "run_round H net w = Inr (c, n1, w1)" by blast
  from run_round_runnable [OF Suc.prems r1] have "runnable n1" .
  from Suc.IH [OF this] obtain net' w' where "run_rounds H r n1 w1 = Inr (net', w')" by blast
  with r1 show ?case by simp
qed

lemma init_runnable:
  assumes "init H n f k d w = Inr (net, w')" and "0 \<le> k \<or> n \<le> 0"
  shows "runnable net"
proof -
  from init_Inr [OF assms(1)] have
    i: "n_agents net = n" "fanout net = min k (n - 1)" "map agent_id (agents net) = py_range n" and
    v: "\<forall>a \<in> set (agents net). local_view a \<noteq> None"
    by simp_all
  have ok: "ids_ok net" by (simp add: ids_ok_def i)
  have "0 \<le> fanout net \<or> agents net = []"
  proof (cases "n \<le> 0")
    case True
    then have "py_range n = []" by (simp add: py_range_def)
    with i(3) show ?thesis by simp
  next
    case False
    with assms(2) show ?thesis by (simp add: i)
  qed
  with ok v show ?thesis by (simp add: runnable_def)
qed

lemma rounds_execute:
  assumes "init H n f k d w = Inr (net0, w0)" and "0 \<le> k \<or> n \<le> 0"
  shows "\<exists>net w'. run_rounds H r net0 w0 = Inr (net, w')"
  using init_runnable [OF assms] by (rule run_rounds_succeeds)

subsection \<open>What a Byzantine agent sends\<close>

lemma byzantine_agent_summary_view:
  "\<exists>v. view (fst (byzantine_agent_summary H net a w)) = Some v \<and> did v = net_did net \<and>
       8 \<le> version v \<and> version v \<le> 20"
proof -
  have v: "version (the (view (fst (byzantine_agent_summary H net a w)))) =
             8 + int (rand_src w 0) mod 13"
    and d: "did (the (view (fst (byzantine_agent_summary H net a w)))) = net_did net"
    and s: "view (fst (byzantine_agent_summary H net a w)) \<noteq> None"
    by (simp_all add: byzantine_agent_summary_def randint_def rand_draw_def time_time_def)
  have "0 \<le> int (rand_src w 0) mod 13" "int (rand_src w 0) mod 13 < 13"
    by simp_all
  with v have "8 \<le> version (the (view (fst (byzantine_agent_summary H net a w))))"
    "version (the (view (fst (byzantine_agent_summary H net a w)))) \<le> 20"
    by linarith+
  with d s show ?thesis by force
qed

lemma emit_loop_fabricated:
  assumes "emit_loop H net as (rm, tm, w) = Inr (as', rm', tm', w')"
    and "distinct (map agent_id as)"
  shows "\<exists>new. rm' = rm @ new \<and> (\<forall>m \<in> set new. sender m \<in> agent_id ` set as) \<and>
     (\<forall>m \<in> set new. \<forall>a \<in> set as. sender m = agent_id a \<and> is_byzantine a \<longrightarrow>
        (\<exists>v. view m = Some v \<and> did v = net_did net \<and> 8 \<le> version v \<and> version v \<le> 20))"
  using assms
proof (induction as arbitrary: rm tm w as')
  case Nil
  then show ?case by simp
next
  case (Cons a rest)
  from Cons.prems(1) obtain ps w1 msg w2 rest' where
    sp: "select_peers net (agent_id a) w = Inr (ps, w1)" and
    sm: "sender msg = agent_id a" and
    vm: "(is_byzantine a \<and> view msg \<noteq> None) \<or> view msg = local_view a" and
    rec: "emit_loop H net rest (rm @ map (msg_copy msg) ps, tm + int (length ps), w2) =
       Inr (rest', rm', tm', w')" and
    as': "as' = a\<lparr>peers := ps, messages_sent := messages_sent a + int (length ps)\<rparr> # rest'" and
    msg: "msg = fst (if is_byzantine a then byzantine_agent_summary H net (a\<lparr>peers := ps\<rparr>) w1
                else (honest_agent_summary net (a\<lparr>peers := ps\<rparr>), w1))"
    by (rule emit_loop_step)
  from Cons.prems(2) have d: "distinct (map agent_id rest)" and
    notin: "agent_id a \<notin> agent_id ` set rest" by simp_all
  from Cons.IH [OF rec d] obtain new where
    n1: "rm' = (rm @ map (msg_copy msg) ps) @ new" and
    n2: "\<forall>m \<in> set new. sender m \<in> agent_id ` set rest" and
    n3: "\<forall>m \<in> set new. \<forall>b \<in> set rest. sender m = agent_id b \<and> is_byzantine b \<longrightarrow>
        (\<exists>v. view m = Some v \<and> did v = net_did net \<and> 8 \<le> version v \<and> version v \<le> 20)"
    by blast
  let ?mine = "map (msg_copy msg) ps"
  have fab: "\<exists>v. view msg = Some v \<and> did v = net_did net \<and> 8 \<le> version v \<and> version v \<le> 20"
    if "is_byzantine a"
    using that byzantine_agent_summary_view [of H net "a\<lparr>peers := ps\<rparr>" w1] by (simp add: msg)
  have mine: "\<forall>m \<in> set ?mine. sender m = agent_id a \<and> view m = view msg"
    using sm by (auto simp: msg_copy_def)
  have "rm' = rm @ (?mine @ new)" using n1 by simp
  moreover have "\<forall>m \<in> set (?mine @ new). sender m \<in> agent_id ` set (a # rest)"
    using mine n2 by auto
  moreover have "\<forall>m \<in> set (?mine @ new). \<forall>b \<in> set (a # rest).
      sender m = agent_id b \<and> is_byzantine b \<longrightarrow>
        (\<exists>v. view m = Some v \<and> did v = net_did net \<and> 8 \<le> version v \<and> version v \<le> 20)"
  proof (intro ballI impI)
    fix m b assume m: "m \<in> set (?mine @ new)" and b: "b \<in> set (a # rest)"
      and sb: "sender m = agent_id b \<and> is_byzantine b"
    show "\<exists>v. view m = Some v \<and> did v = net_did net \<and> 8 \<le> version v \<and> version v \<le> 20"
    proof (cases "m \<in> set ?mine")
      case True
      with mine have s: "sender m = agent_id a" and v: "view m = view msg" by auto
      from s sb b notin have "b = a" by (metis image_eqI set_ConsD)
      with sb fab v show ?thesis by simp
    next
      case False
      with m have mn: "m \<in> set new" by simp
      with n2 notin have "sender m \<noteq> agent_id a" by metis
      with sb b have "b \<in> set rest" by auto
      with n3 mn sb show ?thesis by blast
    qed
  qed
  ultimately show ?case by blast
qed

lemma byzantine_agent_summary_eq:
  "fst (byzantine_agent_summary H net a w) =
     \<lparr>sender = agent_id a, receiver = - 1, msg_type = ''SUMMARY'',
      view = Some \<lparr>did = net_did net, version = 8 + int (rand_src w 0) mod 13,
                   doc_hash = H (''byzantine_'' @ py_str (int (rand_src w 1) mod 101)),
                   timestamp = time_src w 0\<rparr>,
      operations = [], msg_round_num = round_num net\<rparr>"
  by (simp add: byzantine_agent_summary_def randint_def rand_draw_def time_time_def)

lemma byzantine_agent_summary_world:
  "snd (byzantine_agent_summary H net a w) =
     w\<lparr>rand_src := (\<lambda>j. rand_src w (j + 2)), time_src := (\<lambda>j. time_src w (j + 1))\<rparr>"
  by (simp add: byzantine_agent_summary_def randint_def rand_draw_def time_time_def)

lemma emit_loop_Cons:
  assumes "select_peers net (agent_id a) w = Inr (ps, w1)"
  shows "emit_loop H net (a # zs) (rm, tm, w) =
     (case emit_loop H net zs
        (rm @ map (msg_copy (fst (if is_byzantine a
                then byzantine_agent_summary H net (a\<lparr>peers := ps\<rparr>) w1
                else (honest_agent_summary net (a\<lparr>peers := ps\<rparr>), w1)))) ps,
         tm + int (length ps),
         snd (if is_byzantine a
                then byzantine_agent_summary H net (a\<lparr>peers := ps\<rparr>) w1
                else (honest_agent_summary net (a\<lparr>peers := ps\<rparr>), w1))) of
        Inl e \<Rightarrow> Inl e
      | Inr (zs', st') \<Rightarrow>
          Inr (a\<lparr>peers := ps, messages_sent := messages_sent a + int (length ps)\<rparr> # zs', st'))"
proof -
  have byz: "is_byzantine (a\<lparr>peers := ps\<rparr>) = is_byzantine a"
    by (simp add: is_byzantine_def)
  show ?thesis
    by (cases "byzantine_agent_summary H net (a\<lparr>peers := ps\<rparr>) w1")
      (simp add: assms Let_def send_loop_closed byz split: sum.splits prod.splits)
qed

lemma emit_loop_append:
  "emit_loop H net (xs @ ys) st =
     (case emit_loop H net xs st of
        Inl e \<Rightarrow> Inl e
      | Inr (xs', st') \<Rightarrow>
         (case emit_loop H net ys st' of
            Inl e \<Rightarrow> Inl e
          | Inr (ys', st'') \<Rightarrow> Inr (xs' @ ys', st'')))"
proof (induction xs arbitrary: st)
  case Nil
  show ?case by (simp split: sum.splits prod.splits)
next
  case (Cons a xs)
  obtain rm tm w where st: "st = (rm, tm, w)" by (cases st)
  show ?case
  proof (cases "select_peers net (agent_id a) w")
    case (Inl e)
    then show ?thesis by (simp add: st)
  next
    case (Inr pw)
    obtain ps w1 where pw: "pw = (ps, w1)" by (cases pw)
    from Inr pw have sp: "select_peers net (agent_id a) w = Inr (ps, w1)" by simp
    show ?thesis
      unfolding append_Cons st emit_loop_Cons [OF sp] Cons.IH
      by (simp split: sum.splits prod.splits)
  qed
qed

lemma emit_loop_split:
  assumes "emit_loop H net (xs @ a # ys) (rm, tm, w) = Inr (as', rm', tm', w')"
  obtains xs' rm1 tm1 wi ps wi' ys' where
    "emit_loop H net xs (rm, tm, w) = Inr (xs', rm1, tm1, wi)" and
    "select_peers net (agent_id a) wi = Inr (ps, wi')" and
    "emit_loop H net ys
       (rm1 @ map (msg_copy (fst (if is_byzantine a
                then byzantine_agent_summary H net (a\<lparr>peers := ps\<rparr>) wi'
                else (honest_agent_summary net (a\<lparr>peers := ps\<rparr>), wi')))) ps,
        tm1 + int (length ps),
        snd (if is_byzantine a
                then byzantine_agent_summary H net (a\<lparr>peers := ps\<rparr>) wi'
                else (honest_agent_summary net (a\<lparr>peers := ps\<rparr>), wi'))) =
       Inr (ys', rm', tm', w')"
proof -
  from assms obtain xs' st1 r2 where
    p: "emit_loop H net xs (rm, tm, w) = Inr (xs', st1)" and
    s: "emit_loop H net (a # ys) st1 = Inr r2" and fst2: "fst (snd r2) = rm'"
      "fst (snd (snd r2)) = tm'" "snd (snd (snd r2)) = w'"
    unfolding emit_loop_append by (auto split: sum.splits prod.splits)
  obtain rm1 tm1 wi where st1: "st1 = (rm1, tm1, wi)" by (cases st1)
  obtain zs where r2: "r2 = (zs, rm', tm', w')"
    using fst2 by (cases r2) auto
  from s have s': "emit_loop H net (a # ys) (rm1, tm1, wi) = Inr (zs, rm', tm', w')"
    by (simp add: st1 r2)
  then obtain ps wi' where sp: "select_peers net (agent_id a) wi = Inr (ps, wi')"
    by (auto split: sum.splits)
  from s' obtain ys' where
    "emit_loop H net ys
       (rm1 @ map (msg_copy (fst (if is_byzantine a
                then byzantine_agent_summary H net (a\<lparr>peers := ps\<rparr>) wi'
                else (honest_agent_summary net (a\<lparr>peers := ps\<rparr>), wi')))) ps,
        tm1 + int (length ps),
        snd (if is_byzantine a
                then byzantine_agent_summary H net (a\<lparr>peers := ps\<rparr>) wi'
                else (honest_agent_summary net (a\<lparr>peers := ps\<rparr>), wi'))) =
       Inr (ys', rm', tm', w')"
    unfolding emit_loop_Cons [OF sp] by (auto split: sum.splits prod.splits)
  with p st1 sp show ?thesis using that by blast
qed

lemma emit_loop_senders:
  assumes "emit_loop H net as (rm, tm, w) = Inr (as', rm', tm', w')"
  shows "\<exists>new. rm' = rm @ new \<and> (\<forall>m \<in> set new. sender m \<in> agent_id ` set as)"
  using emit_loop_shape [OF assms] by blast

lemma emit_loop_byzantine_turn:
  assumes "emit_loop H net as ([], tm, w) = Inr (as', rm, tm', w')"
    and "distinct (map agent_id as)" and "i < length as" and "is_byzantine (as ! i)"
  shows "\<exists>xs' rm1 tm1 wi ps wi' xs2 rm2 tm2.
      emit_loop H net (take i as) ([], tm, w) = Inr (xs', rm1, tm1, wi) \<and>
      select_peers net (agent_id (as ! i)) wi = Inr (ps, wi') \<and>
      filter (\<lambda>m. sender m = agent_id (as ! i)) rm =
        map (\<lambda>p. \<lparr>sender = agent_id (as ! i), receiver = p, msg_type = ''SUMMARY'',
                   view = Some \<lparr>did = net_did net,
                      version = 8 + int (rand_src wi' 0) mod 13,
                      doc_hash = H (''byzantine_'' @ py_str (int (rand_src wi' 1) mod 101)),
                      timestamp = time_src wi' 0\<rparr>,
                   operations = [], msg_round_num = round_num net\<rparr>) ps \<and>
      emit_loop H net (take (Suc i) as) ([], tm, w) =
        Inr (xs2, rm2, tm2,
             wi'\<lparr>rand_src := (\<lambda>j. rand_src wi' (j + 2)),
                 time_src := (\<lambda>j. time_src wi' (j + 1))\<rparr>)"
proof -
  let ?a = "as ! i"
  have as: "as = take i as @ ?a # drop (Suc i) as"
    using assms(3) by (rule id_take_nth_drop)
  from assms(1) have "emit_loop H net (take i as @ ?a # drop (Suc i) as) ([], tm, w) =
      Inr (as', rm, tm', w')"
    using as by simp
  then obtain xs' rm1 tm1 wi ps wi' ys' where
    p: "emit_loop H net (take i as) ([], tm, w) = Inr (xs', rm1, tm1, wi)" and
    sp: "select_peers net (agent_id ?a) wi = Inr (ps, wi')" and
    s0: "emit_loop H net (drop (Suc i) as)
       (rm1 @ map (msg_copy (fst (if is_byzantine ?a
                then byzantine_agent_summary H net (?a\<lparr>peers := ps\<rparr>) wi'
                else (honest_agent_summary net (?a\<lparr>peers := ps\<rparr>), wi')))) ps,
        tm1 + int (length ps),
        snd (if is_byzantine ?a
                then byzantine_agent_summary H net (?a\<lparr>peers := ps\<rparr>) wi'
                else (honest_agent_summary net (?a\<lparr>peers := ps\<rparr>), wi'))) =
       Inr (ys', rm, tm', w')"
    by (rule emit_loop_split)
  define msg where "msg = fst (byzantine_agent_summary H net (?a\<lparr>peers := ps\<rparr>) wi')"
  define w2 where "w2 = snd (byzantine_agent_summary H net (?a\<lparr>peers := ps\<rparr>) wi')"
  from s0 assms(4) have
    s: "emit_loop H net (drop (Suc i) as) (rm1 @ map (msg_copy msg) ps, tm1 + int (length ps), w2) =
       Inr (ys', rm, tm', w')"
    by (simp add: msg_def w2_def)
  from assms(2) have "distinct (map agent_id (take i as @ ?a # drop (Suc i) as))"
    using as by simp
  then have n1: "agent_id ?a \<notin> agent_id ` set (take i as)" and
    n3: "agent_id ?a \<notin> agent_id ` set (drop (Suc i) as)"
    by auto
  from emit_loop_senders [OF p] have
    s1: "\<forall>m \<in> set rm1. sender m \<in> agent_id ` set (take i as)" by simp
  from emit_loop_senders [OF s] obtain new3 where
    rm: "rm = (rm1 @ map (msg_copy msg) ps) @ new3" and
    s3: "\<forall>m \<in> set new3. sender m \<in> agent_id ` set (drop (Suc i) as)"
    by blast
  have f1: "filter (\<lambda>m. sender m = agent_id ?a) rm1 = []"
  proof -
    have "sender m \<noteq> agent_id ?a" if "m \<in> set rm1" for m
      using s1 n1 that by metis
    then show ?thesis by (simp add: filter_empty_conv)
  qed
  have f3: "filter (\<lambda>m. sender m = agent_id ?a) new3 = []"
  proof -
    have "sender m \<noteq> agent_id ?a" if "m \<in> set new3" for m
      using s3 n3 that by metis
    then show ?thesis by (simp add: filter_empty_conv)
  qed
  have f2: "filter (\<lambda>m. sender m = agent_id ?a) (map (msg_copy msg) ps) =
        map (\<lambda>p. \<lparr>sender = agent_id ?a, receiver = p, msg_type = ''SUMMARY'',
                   view = Some \<lparr>did = net_did net,
                      version = 8 + int (rand_src wi' 0) mod 13,
                      doc_hash = H (''byzantine_'' @ py_str (int (rand_src wi' 1) mod 101)),
                      timestamp = time_src wi' 0\<rparr>,
                   operations = [], msg_round_num = round_num net\<rparr>) ps"
    unfolding msg_def byzantine_agent_summary_eq by (simp add: msg_copy_def)
  have f: "filter (\<lambda>m. sender m = agent_id ?a) rm =
      filter (\<lambda>m. sender m = agent_id ?a) (map (msg_copy msg) ps)"
    unfolding rm filter_append f1 f3 by simp
  have t: "take (Suc i) as = take i as @ [?a]"
    using assms(3) by (rule take_Suc_conv_app_nth)
  have "emit_loop H net [?a] (rm1, tm1, wi) =
      Inr ([?a\<lparr>peers := ps, messages_sent := messages_sent ?a + int (length ps)\<rparr>],
           rm1 @ map (msg_copy msg) ps, tm1 + int (length ps), w2)"
    unfolding emit_loop_Cons [OF sp] using assms(4) by (simp add: msg_def w2_def)
  with p have "emit_loop H net (take (Suc i) as) ([], tm, w) =
      Inr (xs' @ [?a\<lparr>peers := ps, messages_sent := messages_sent ?a + int (length ps)\<rparr>],
           rm1 @ map (msg_copy msg) ps, tm1 + int (length ps), w2)"
    unfolding t emit_loop_append by simp
  moreover have "w2 = wi'\<lparr>rand_src := (\<lambda>j. rand_src wi' (j + 2)),
                 time_src := (\<lambda>j. time_src wi' (j + 1))\<rparr>"
    unfolding w2_def by (rule byzantine_agent_summary_world)
  ultimately have "\<exists>xs2 rm2 tm2. emit_loop H net (take (Suc i) as) ([], tm, w) =
        Inr (xs2, rm2, tm2,
             wi'\<lparr>rand_src := (\<lambda>j. rand_src wi' (j + 2)),
                 time_src := (\<lambda>j. time_src wi' (j + 1))\<rparr>)"
    by simp
  with f f2 p sp show ?thesis by (elim exE) (intro exI conjI, assumption+, simp, assumption)
qed

text \<open>
  Claim C3, as the code has it. A Byzantine agent fabricates one view per round, with a
  version between 8 and 20: the summary is built once per agent and round, before the
  loop over the peers, and every message the agent sends in that round is a copy of it.
  Within a round all messages of one sender carry the same view, whichever peer they go to.
  For the Byzantine agent at position \<open>i\<close> of the agent list the round's messages are
  exactly these: when its turn comes, after the agents before it have emitted, it samples
  \<open>min fanout (number of other agents)\<close> distinct peers, then draws a version
  \<open>randint(8, 20)\<close> and a salt \<open>randint(0, 100)\<close> from the random source and reads the
  clock, once; it sends to each sampled peer, in the order sampled, one message of type
  SUMMARY carrying the session's DID, that version, the digest of \<open>byzantine_ followed by the salt\<close>, that
  clock reading and the number of the round. The two draws and the clock reading are used
  up: the agent after it, and the same agent in later rounds, draw further along the source.
\<close>

theorem byzantine_one_view_per_round:
  assumes "emit_phase H net w = Inr (net2, rm, w1)" and "distinct (map agent_id (agents net))"
  shows "(\<forall>m1 \<in> set rm. \<forall>m2 \<in> set rm. sender m1 = sender m2 \<longrightarrow> view m1 = view m2) \<and>
         (\<forall>m \<in> set rm. \<forall>a \<in> set (agents net). sender m = agent_id a \<and> is_byzantine a \<longrightarrow>
            (\<exists>v. view m = Some v \<and> did v = net_did net \<and> 8 \<le> version v \<and> version v \<le> 20)) \<and>
         (\<forall>i < length (agents net). is_byzantine (agents net ! i) \<longrightarrow>
            (\<exists>xs' rm1 tm1 wi ps wi' xs2 rm2 tm2.
               emit_loop H (net\<lparr>round_num := round_num net + 1\<rparr>) (take i (agents net))
                 ([], total_messages net, w) = Inr (xs', rm1, tm1, wi) \<and>
               select_peers net (agent_id (agents net ! i)) wi = Inr (ps, wi') \<and>
               distinct ps \<and>
               int (length ps) =
                 min (fanout net)
                   (int (length (filter (\<lambda>j. j \<noteq> agent_id (agents net ! i))
                                   (py_range (n_agents net))))) \<and>
               filter (\<lambda>m. sender m = agent_id (agents net ! i)) rm =
                 map (\<lambda>p. \<lparr>sender = agent_id (agents net ! i), receiver = p,
                            msg_type = ''SUMMARY'',
                            view = Some \<lparr>did = net_did net,
                               version = 8 + int (rand_src wi' 0) mod 13,
                               doc_hash =
                                 H (''byzantine_'' @ py_str (int (rand_src wi' 1) mod 101)),
                               timestamp = time_src wi' 0\<rparr>,
                            operations = [], msg_round_num = round_num net + 1\<rparr>) ps \<and>
               emit_loop H (net\<lparr>round_num := round_num net + 1\<rparr>) (take (Suc i) (agents net))
                 ([], total_messages net, w) =
                 Inr (xs2, rm2, tm2,
                      wi'\<lparr>rand_src := (\<lambda>j. rand_src wi' (j + 2)),
                          time_src := (\<lambda>j. time_src wi' (j + 1))\<rparr>)))"
proof -
  define net1 where "net1 = net\<lparr>round_num := round_num net + 1\<rparr>"
  have f: "agents net1 = agents net" "net_did net1 = net_did net"
    "total_messages net1 = total_messages net" "round_num net1 = round_num net + 1"
    "fanout net1 = fanout net" "n_agents net1 = n_agents net"
    by (simp_all add: net1_def)
  have spr: "select_peers net1 aid w' = select_peers net aid w'" for aid w'
    by (simp add: select_peers_def net1_def)
  from assms(1) have "\<not> isl (emit_loop H net1 (agents net1) ([], total_messages net1, w))"
    by (auto simp: emit_phase_def Let_def net1_def split: sum.splits)
  then obtain r where r: "emit_loop H net1 (agents net1) ([], total_messages net1, w) = Inr r"
    by (cases "emit_loop H net1 (agents net1) ([], total_messages net1, w)") simp_all
  obtain ags rm0 tm w0 where r4: "r = (ags, rm0, tm, w0)" by (cases r)
  from assms(1) r have "rm0 = rm"
    by (simp add: emit_phase_def Let_def net1_def [symmetric] r4)
  with r r4 have
    e: "emit_loop H net1 (agents net1) ([], total_messages net1, w) = Inr (ags, rm, tm, w0)"
    by simp
  have d: "distinct (map agent_id (agents net1))" using assms(2) by (simp add: f)
  note one = emit_loop_one_view_per_sender [OF e d, unfolded append_Nil]
  note fab = emit_loop_fabricated [OF e d, unfolded append_Nil f]
  from one have "\<forall>m1 \<in> set rm. \<forall>m2 \<in> set rm. sender m1 = sender m2 \<longrightarrow> view m1 = view m2"
    by (elim exE conjE) (erule ssubst)
  moreover from fab have
    "\<forall>m \<in> set rm. \<forall>a \<in> set (agents net). sender m = agent_id a \<and> is_byzantine a \<longrightarrow>
            (\<exists>v. view m = Some v \<and> did v = net_did net \<and> 8 \<le> version v \<and> version v \<le> 20)"
    by (elim exE conjE) (erule ssubst)
  moreover have "\<exists>xs' rm1 tm1 wi ps wi' xs2 rm2 tm2.
               emit_loop H net1 (take i (agents net))
                 ([], total_messages net, w) = Inr (xs', rm1, tm1, wi) \<and>
               select_peers net (agent_id (agents net ! i)) wi = Inr (ps, wi') \<and>
               distinct ps \<and>
               int (length ps) =
                 min (fanout net)
                   (int (length (filter (\<lambda>j. j \<noteq> agent_id (agents net ! i))
                                   (py_range (n_agents net))))) \<and>
               filter (\<lambda>m. sender m = agent_id (agents net ! i)) rm =
                 map (\<lambda>p. \<lparr>sender = agent_id (agents net ! i), receiver = p,
                            msg_type = ''SUMMARY'',
                            view = Some \<lparr>did = net_did net,
                               version = 8 + int (rand_src wi' 0) mod 13,
                               doc_hash =
                                 H (''byzantine_'' @ py_str (int (rand_src wi' 1) mod 101)),
                               timestamp = time_src wi' 0\<rparr>,
                            operations = [], msg_round_num = round_num net + 1\<rparr>) ps \<and>
               emit_loop H net1 (take (Suc i) (agents net))
                 ([], total_messages net, w) =
                 Inr (xs2, rm2, tm2,
                      wi'\<lparr>rand_src := (\<lambda>j. rand_src wi' (j + 2)),
                          time_src := (\<lambda>j. time_src wi' (j + 1))\<rparr>)"
    if i: "i < length (agents net)" and b: "is_byzantine (agents net ! i)" for i
  proof -
    note turn = emit_loop_byzantine_turn [OF e d, unfolded f spr, OF i b]
    then obtain xs' rm1 tm1 wi ps wi' xs2 rm2 tm2 where
      t1: "emit_loop H net1 (take i (agents net)) ([], total_messages net, w) =
             Inr (xs', rm1, tm1, wi)" and
      t2: "select_peers net (agent_id (agents net ! i)) wi = Inr (ps, wi')" and
      t3: "filter (\<lambda>m. sender m = agent_id (agents net ! i)) rm =
                 map (\<lambda>p. \<lparr>sender = agent_id (agents net ! i), receiver = p,
                            msg_type = ''SUMMARY'',
                            view = Some \<lparr>did = net_did net,
                               version = 8 + int (rand_src wi' 0) mod 13,
                               doc_hash =
                                 H (''byzantine_'' @ py_str (int (rand_src wi' 1) mod 101)),
                               timestamp = time_src wi' 0\<rparr>,
                            operations = [], msg_round_num = round_num net + 1\<rparr>) ps" and
      t4: "emit_loop H net1 (take (Suc i) (agents net)) ([], total_messages net, w) =
                 Inr (xs2, rm2, tm2,
                      wi'\<lparr>rand_src := (\<lambda>j. rand_src wi' (j + 2)),
                          time_src := (\<lambda>j. time_src wi' (j + 1))\<rparr>)"
      by blast
    from select_peers_Inr [OF t2] have
      t5: "distinct ps" and
      t6: "int (length ps) =
                 min (fanout net)
                   (int (length (filter (\<lambda>j. j \<noteq> agent_id (agents net ! i))
                                   (py_range (n_agents net)))))"
      by simp_all
    from t1 t2 t5 t6 t3 t4 show ?thesis by (intro exI conjI)
  qed
  ultimately show ?thesis unfolding net1_def by (intro conjI allI impI)
qed

theorem byzantine_one_view_per_round_witness:
  "distinct (map agent_id (agents ex_net)) \<and> length ex_emitted = 6 \<and>
   sender (ex_emitted ! 0) = sender (ex_emitted ! 1) \<and>
   receiver (ex_emitted ! 0) \<noteq> receiver (ex_emitted ! 1) \<and>
   view (ex_emitted ! 0) = view (ex_emitted ! 1) \<and>
   is_byzantine (agents ex_net ! 0) \<and> agent_id (agents ex_net ! 0) = 0 \<and>
   select_peers ex_net 0 demo_world = Inr ex_turn \<and> fst ex_turn = [1, 2] \<and>
   rand_src (snd ex_turn) 0 = 2 \<and> rand_src (snd ex_turn) 1 = 3 \<and>
   time_src (snd ex_turn) 0 = 1000 \<and>
   filter (\<lambda>m. sender m = 0) ex_emitted =
     [\<lparr>sender = 0, receiver = 1, msg_type = ''SUMMARY'',
       view = Some \<lparr>did = ''did:example:123'', version = 10,
                    doc_hash = demo_hash ''byzantine_3'', timestamp = 1000\<rparr>,
       operations = [], msg_round_num = 1\<rparr>,
      \<lparr>sender = 0, receiver = 2, msg_type = ''SUMMARY'',
       view = Some \<lparr>did = ''did:example:123'', version = 10,
                    doc_hash = demo_hash ''byzantine_3'', timestamp = 1000\<rparr>,
       operations = [], msg_round_num = 1\<rparr>] \<and>
   map view (filter (\<lambda>m. sender m = 0) ex_emitted2) =
     [Some \<lparr>did = ''did:example:123'', version = 18,
            doc_hash = demo_hash ''byzantine_11'', timestamp = 1003\<rparr>,
      Some \<lparr>did = ''did:example:123'', version = 18,
            doc_hash = demo_hash ''byzantine_11'', timestamp = 1003\<rparr>]"
proof -
  have "\<not> isl (emit_phase demo_hash ex_net demo_world)" by code_simp
  then obtain net2 w1 where
    e: "emit_phase demo_hash ex_net demo_world = Inr (net2, ex_emitted, w1)"
    by (cases "emit_phase demo_hash ex_net demo_world") (auto simp: ex_emitted_def)
  have d: "distinct (map agent_id (agents ex_net))"
    by (simp add: ex_net_def ex_byz_def ex_stale_def ex_fresh_def)
  have l: "length ex_emitted = 6" by code_simp
  have s: "sender (ex_emitted ! 0) = sender (ex_emitted ! 1)" by code_simp
  have r: "receiver (ex_emitted ! 0) \<noteq> receiver (ex_emitted ! 1)" by code_simp
  from l have m: "ex_emitted ! 0 \<in> set ex_emitted" "ex_emitted ! 1 \<in> set ex_emitted"
    by simp_all
  note main = byzantine_one_view_per_round [OF e d]
  from main have
    "\<forall>m1 \<in> set ex_emitted. \<forall>m2 \<in> set ex_emitted.
       sender m1 = sender m2 \<longrightarrow> view m1 = view m2"
    by (rule conjunct1)
  with m s have v: "view (ex_emitted ! 0) = view (ex_emitted ! 1)" by blast
  have b: "is_byzantine (agents ex_net ! 0)" by code_simp
  have i0: "agent_id (agents ex_net ! 0) = 0" by code_simp
  have n0: "0 < length (agents ex_net)" by code_simp
  have dd: "net_did ex_net = ''did:example:123''" "round_num ex_net + 1 = 1"
    by (simp_all add: ex_net_def)
  have "\<not> isl (select_peers ex_net 0 demo_world)" by code_simp
  then have sp: "select_peers ex_net 0 demo_world = Inr ex_turn"
    by (cases "select_peers ex_net 0 demo_world") (simp_all add: ex_turn_def)
  have ps: "fst ex_turn = [1, 2]" by code_simp
  have r0: "rand_src (snd ex_turn) 0 = 2" by code_simp
  have r1: "rand_src (snd ex_turn) 1 = 3" by code_simp
  have t0: "time_src (snd ex_turn) 0 = 1000" by code_simp
  have h: "py_str 3 = ''3''" by code_simp
  from main have "\<forall>i < length (agents ex_net). is_byzantine (agents ex_net ! i) \<longrightarrow>
            (\<exists>xs' rm1 tm1 wi ps wi' xs2 rm2 tm2.
               emit_loop demo_hash (ex_net\<lparr>round_num := round_num ex_net + 1\<rparr>)
                 (take i (agents ex_net))
                 ([], total_messages ex_net, demo_world) = Inr (xs', rm1, tm1, wi) \<and>
               select_peers ex_net (agent_id (agents ex_net ! i)) wi = Inr (ps, wi') \<and>
               distinct ps \<and>
               int (length ps) =
                 min (fanout ex_net)
                   (int (length (filter (\<lambda>j. j \<noteq> agent_id (agents ex_net ! i))
                                   (py_range (n_agents ex_net))))) \<and>
               filter (\<lambda>m. sender m = agent_id (agents ex_net ! i)) ex_emitted =
                 map (\<lambda>p. \<lparr>sender = agent_id (agents ex_net ! i), receiver = p,
                            msg_type = ''SUMMARY'',
                            view = Some \<lparr>did = net_did ex_net,
                               version = 8 + int (rand_src wi' 0) mod 13,
                               doc_hash =
                                 demo_hash (''byzantine_'' @ py_str (int (rand_src wi' 1) mod 101)),
                               timestamp = time_src wi' 0\<rparr>,
                            operations = [], msg_round_num = round_num ex_net + 1\<rparr>) ps \<and>
               emit_loop demo_hash (ex_net\<lparr>round_num := round_num ex_net + 1\<rparr>)
                 (take (Suc i) (agents ex_net))
                 ([], total_messages ex_net, demo_world) =
                 Inr (xs2, rm2, tm2,
                      wi'\<lparr>rand_src := (\<lambda>j. rand_src wi' (j + 2)),
                          time_src := (\<lambda>j. time_src wi' (j + 1))\<rparr>))"
    by (elim conjE)
  from this [rule_format, OF n0 b, unfolded i0 dd take_0 emit_loop.simps]
  have fl: "filter (\<lambda>m. sender m = 0) ex_emitted =
     [\<lparr>sender = 0, receiver = 1, msg_type = ''SUMMARY'',
       view = Some \<lparr>did = ''did:example:123'', version = 10,
                    doc_hash = demo_hash ''byzantine_3'', timestamp = 1000\<rparr>,
       operations = [], msg_round_num = 1\<rparr>,
      \<lparr>sender = 0, receiver = 2, msg_type = ''SUMMARY'',
       view = Some \<lparr>did = ''did:example:123'', version = 10,
                    doc_hash = demo_hash ''byzantine_3'', timestamp = 1000\<rparr>,
       operations = [], msg_round_num = 1\<rparr>]"
  proof (elim exE conjE)
    fix xs' :: "Agent list" and rm1 :: "Message list" and tm1 :: int and wi ps wi'
    assume q1: "Inr ([], [], total_messages ex_net, demo_world) = Inr (xs', rm1, tm1, wi)"
      and q2: "select_peers ex_net 0 wi = Inr (ps, wi')"
      and q3: "filter (\<lambda>m. sender m = 0) ex_emitted =
                 map (\<lambda>p. \<lparr>sender = 0, receiver = p,
                            msg_type = ''SUMMARY'',
                            view = Some \<lparr>did = ''did:example:123'',
                               version = 8 + int (rand_src wi' 0) mod 13,
                               doc_hash =
                                 demo_hash (''byzantine_'' @ py_str (int (rand_src wi' 1) mod 101)),
                               timestamp = time_src wi' 0\<rparr>,
                            operations = [], msg_round_num = 1\<rparr>) ps"
    from q1 have "wi = demo_world" by simp
    with q2 sp have "Inr ex_turn = (Inr (ps, wi') :: error + int list \<times> world)" by simp
    then have et: "ex_turn = (ps, wi')" by (simp only: sum.inject)
    have "ps = fst ex_turn" unfolding et by simp
    then have p: "ps = [1, 2]" unfolding ps .
    have wq: "wi' = snd ex_turn" unfolding et by simp
    have v: "8 + int (rand_src wi' 0) mod 13 = 10" unfolding wq r0 by simp
    have g: "py_str (int (rand_src wi' 1) mod 101) = ''3''" unfolding wq r1 using h by simp
    have t: "time_src wi' 0 = 1000" unfolding wq by (rule t0)
    show ?thesis unfolding q3 p v g t by simp
  qed
  have nx: "map view (filter (\<lambda>m. sender m = 0) ex_emitted2) =
     [Some \<lparr>did = ''did:example:123'', version = 18,
            doc_hash = demo_hash ''byzantine_11'', timestamp = 1003\<rparr>,
      Some \<lparr>did = ''did:example:123'', version = 18,
            doc_hash = demo_hash ''byzantine_11'', timestamp = 1003\<rparr>]"
    by code_simp
  from d l s r v b i0 sp ps r0 r1 t0 fl nx show ?thesis by (intro conjI)
qed

text \<open>
  Claim C3 as stated fails: in this round the random source never gives the same number
  twice, so two independent fabrications could not coincide, and still both messages of
  the Byzantine agent 0, to peer 1 and to peer 2, carry one and the same view.
\<close>

theorem byzantine_fresh_view_per_message_counterexample:
  "is_byzantine (agents ex_net ! 0) \<and> agent_id (agents ex_net ! 0) = 0 \<and> fanout ex_net = 2 \<and>
   \<not> isl (emit_phase demo_hash ex_net demo_world) \<and>
   sender (ex_emitted ! 0) = 0 \<and> receiver (ex_emitted ! 0) = 1 \<and>
   sender (ex_emitted ! 1) = 0 \<and> receiver (ex_emitted ! 1) = 2 \<and>
   view (ex_emitted ! 0) = view (ex_emitted ! 1) \<and>
   view (ex_emitted ! 0) =
     Some \<lparr>did = ''did:example:123'', version = 10, doc_hash = ''byzantine_3'',
           timestamp = 1000\<rparr>"
  by code_simp

subsection \<open>A session with no honest agent\<close>

lemma init_succeeds:
  assumes "0 \<le> f" and "f \<le> n"
  shows "\<exists>net w'. init H n f k d w = Inr (net, w')"
proof -
  from assms have "0 \<le> f \<and> f \<le> int (length (py_range n))"
    by (simp add: py_range_length)
  then obtain ids w1 where "random_sample (py_range n) f w = Inr (ids, w1)"
    by (simp add: random_sample_def) (metis surj_pair)
  then show ?thesis
    by (simp add: init_def Let_def split: prod.splits)
qed

lemma run_round_types:
  assumes "run_round H net w = Inr (c, net', w')"
  shows "map agent_type (agents net') = map agent_type (agents net)"
  using run_round_effect [OF assms] list_all2_adopts_ids by blast

lemma no_honest_converged:
  assumes "filter (\<lambda>a. \<not> is_byzantine a) (agents net) = []"
  shows "all_honest_at_ledger net"
proof -
  from assms have "\<forall>a \<in> set (agents net). is_byzantine a"
    by (simp add: filter_empty_conv)
  then show ?thesis by (simp add: all_honest_at_ledger_def)
qed

text \<open>
  Claim C10. With no honest agent the convergence check is vacuously true: it answers
  yes and, when no round is recorded, records the current one. The constructor accepts
  as many Byzantine agents as there are agents, every agent is then Byzantine, and
  running such a session to convergence stops after its first round with a record that
  says converged, convergence round 1, one round executed and no honest agent.
\<close>

theorem all_byzantine_vacuous_convergence:
  assumes "0 < n" and "0 \<le> k" and "0 < max_rounds"
  shows "(filter (\<lambda>a. \<not> is_byzantine a) (agents net) = [] \<longrightarrow>
            check_convergence net =
              (True, if convergence_round net = None
                     then net\<lparr>convergence_round := Some (round_num net)\<rparr> else net)) \<and>
         (\<exists>net0 w0 stats net1 w1.
            init H n n k d w = Inr (net0, w0) \<and>
            filter (\<lambda>a. \<not> is_byzantine a) (agents net0) = [] \<and>
            run_until_convergence H net0 max_rounds w0 = Inr (stats, net1, w1) \<and>
            converged stats \<and> stat_convergence_round stats = Some 1 \<and> rounds stats = 1 \<and>
            honest_agents stats = 0 \<and> byzantine_agents stats = n)"
proof (rule conjI)
  show "filter (\<lambda>a. \<not> is_byzantine a) (agents net) = [] \<longrightarrow>
            check_convergence net =
              (True, if convergence_round net = None
                     then net\<lparr>convergence_round := Some (round_num net)\<rparr> else net)"
    using no_honest_converged [of net] by (simp add: check_convergence_eq)
next
  from assms(1) obtain net0 w0 where i: "init H n n k d w = Inr (net0, w0)"
    using init_succeeds [of n n H k d w] by auto
  from init_Inr [OF i] obtain ids w1 where
    f0: "n_agents net0 = n" "f_byzantine net0 = n" "round_num net0 = 0"
      "convergence_round net0 = None" and
    rs: "random_sample (py_range n) n w = Inr (ids, w1)" and
    ty: "map agent_type (agents net0) =
           map (\<lambda>i. if i \<in> set ids then BYZANTINE else HONEST) (py_range n)"
    by auto
  from random_sample_Inr [OF rs] have
    len: "length ids = nat n" and sub: "set ids \<subseteq> set (py_range n)" and dis: "distinct ids"
    by (simp_all add: py_range_distinct)
  have "card (set ids) = card (set (py_range n))"
    using dis len by (simp add: distinct_card py_range_distinct py_range_length)
  with sub have all: "set ids = set (py_range n)"
    by (simp add: card_subset_eq)
  have "map agent_type (agents net0) = map (\<lambda>i. BYZANTINE) (py_range n)"
    unfolding ty by (rule map_cong) (simp_all add: all)
  then have byz0: "\<forall>t \<in> set (map agent_type (agents net0)). t = BYZANTINE"
    by simp
  then have none0: "filter (\<lambda>a. \<not> is_byzantine a) (agents net0) = []"
    by (simp add: filter_empty_conv is_byzantine_def)
  from init_runnable [OF i] assms(2) have run0: "runnable net0" by simp
  from run_round_succeeds [OF run0] obtain c net1 w1' where
    r: "run_round H net0 w0 = Inr (c, net1, w1')" by blast
  from run_round_types [OF r] byz0 have "\<forall>t \<in> set (map agent_type (agents net1)). t = BYZANTINE"
    by simp
  then have none1: "filter (\<lambda>a. \<not> is_byzantine a) (agents net1) = []"
    by (simp add: filter_empty_conv is_byzantine_def)
  from run_round_effect [OF r] no_honest_converged [OF none1] have
    c: "c" and cr: "convergence_round net1 = Some 1" and rn: "round_num net1 = 1" and
    n1: "n_agents net1 = n"
    by (simp_all add: f0)
  from run_round_Inr [OF r] obtain net2 rm wa net3 where
    e: "emit_phase H net0 w0 = Inr (net2, rm, wa)" and
    dl: "deliver_loop rm (net2, wa) = Inr (net3, w1')" and
    cc: "check_convergence net3 = (c, net1)"
    by blast
  from emit_phase_Inr [OF e] deliver_loop_Inr [OF dl] have "f_byzantine net3 = n"
    by (simp add: frame_def f0)
  with cc have fb: "f_byzantine net1 = n"
    unfolding check_convergence_eq by (auto split: if_splits)
  from assms(3) obtain m where m: "nat max_rounds = Suc m"
    by (cases "nat max_rounds") simp_all
  have rl: "round_loop H (nat max_rounds) net0 w0 = Inr (net1, w1')"
    unfolding m by (simp add: r c)
  define stats where "stats = \<lparr>stat_n_agents = n_agents net1, stat_f_byzantine = f_byzantine net1,
                stat_fanout = fanout net1, rounds = round_num net1,
                converged = (convergence_round net1 \<noteq> None),
                stat_convergence_round = convergence_round net1,
                stat_total_messages = total_messages net1,
                stat_total_ledger_queries = total_ledger_queries net1,
                avg_messages_per_agent =
                  real_of_int (total_messages net1) / real_of_int (n_agents net1),
                avg_ledger_queries_per_agent =
                  real_of_int (total_ledger_queries net1) / real_of_int (n_agents net1),
                honest_agents = int (length (filter (\<lambda>a. \<not> is_byzantine a) (agents net1))),
                byzantine_agents = f_byzantine net1, trial = None\<rparr>"
  have gs: "get_statistics net1 = Inr stats"
    using assms(1) by (simp add: get_statistics_def Let_def n1 stats_def)
  have ru: "run_until_convergence H net0 max_rounds w0 = Inr (stats, net1, w1')"
    by (simp add: run_until_convergence_def rl gs)
  have "converged stats" "stat_convergence_round stats = Some 1" "rounds stats = 1"
    "honest_agents stats = 0" "byzantine_agents stats = n"
    by (simp_all add: stats_def cr rn none1 fb)
  with i none0 ru show "\<exists>net0 w0 stats net1 w1.
            init H n n k d w = Inr (net0, w0) \<and>
            filter (\<lambda>a. \<not> is_byzantine a) (agents net0) = [] \<and>
            run_until_convergence H net0 max_rounds w0 = Inr (stats, net1, w1) \<and>
            converged stats \<and> stat_convergence_round stats = Some 1 \<and> rounds stats = 1 \<and>
            honest_agents stats = 0 \<and> byzantine_agents stats = n"
    by blast
qed

theorem all_byzantine_vacuous_convergence_witness:
  "(0::int) < 2 \<and> (0::int) \<le> 1 \<and> (0::int) < 50 \<and>
   (\<exists>net0 w0 stats net1 w1.
      init demo_hash 2 2 1 ''did:example:123'' demo_world = Inr (net0, w0) \<and>
      filter (\<lambda>a. \<not> is_byzantine a) (agents net0) = [] \<and>
      run_until_convergence demo_hash net0 50 w0 = Inr (stats, net1, w1) \<and>
      converged stats \<and> stat_convergence_round stats = Some 1 \<and> rounds stats = 1 \<and>
      honest_agents stats = 0 \<and> byzantine_agents stats = 2)"
proof -
  have h: "(0::int) < 2" "(0::int) \<le> 1" "(0::int) < 50" by simp_all
  from all_byzantine_vacuous_convergence [OF h, THEN conjunct2] h show ?thesis
    by (intro conjI)
qed

subsection \<open>Binary floating point\<close>

lemma pow2_pos: "0 < pow2 e"
  by (simp add: pow2_def)

lemma pow2_nonpos: "e \<le> 0 \<Longrightarrow> real_of_int c / pow2 e = real_of_int (c * 2 ^ nat (- e))"
  by (simp add: pow2_def)

lemma round_half_even_le:
  assumes "y \<le> real_of_int k"
  shows "round_half_even y \<le> k"
proof -
  from assms have fl: "\<lfloor>y\<rfloor> \<le> k" by (simp add: floor_le_iff)
  show ?thesis
  proof (cases "y = real_of_int \<lfloor>y\<rfloor>")
    case True
    then show ?thesis using fl by (simp add: round_half_even_def Let_def)
  next
    case False
    have "real_of_int \<lfloor>y\<rfloor> \<le> y" by (rule of_int_floor_le)
    then have "real_of_int \<lfloor>y\<rfloor> < y \<or> real_of_int \<lfloor>y\<rfloor> = y" by (rule le_imp_less_or_eq)
    with False have "real_of_int \<lfloor>y\<rfloor> < y" by metis
    from this assms have "real_of_int \<lfloor>y\<rfloor> < real_of_int k" by (rule less_le_trans)
    then have "\<lfloor>y\<rfloor> < k" by (simp only: of_int_less_iff)
    then show ?thesis by (simp add: round_half_even_def Let_def)
  qed
qed

lemma round_half_even_ge:
  assumes "real_of_int k \<le> y"
  shows "k \<le> round_half_even y"
proof -
  from assms have "k \<le> \<lfloor>y\<rfloor>" by (simp add: le_floor_iff)
  then show ?thesis by (simp add: round_half_even_def Let_def)
qed

lemma round_half_even_gt:
  assumes "real_of_int k + 1 / 2 < y"
  shows "k < round_half_even y"
proof -
  from assms have fl: "k \<le> \<lfloor>y\<rfloor>" by (simp add: le_floor_iff)
  show ?thesis
  proof (cases "k = \<lfloor>y\<rfloor>")
    case True
    with assms have "1 / 2 < y - real_of_int \<lfloor>y\<rfloor>" by simp
    then show ?thesis using True by (simp add: round_half_even_def Let_def)
  next
    case False
    with fl have "k < \<lfloor>y\<rfloor>" by simp
    then show ?thesis by (simp add: round_half_even_def Let_def)
  qed
qed

text \<open>\<open>ilog2\<close> is the exponent of the binade of a positive number.\<close>

lemma ilog2_binade:
  assumes "0 < x"
  shows "pow2 (ilog2 x) \<le> x \<and> x < pow2 (ilog2 x + 1)"
proof (cases "1 \<le> x")
  case True
  then have p: "0 < \<lfloor>x\<rfloor>" by simp
  from bitlen_bounds [OF p] have
    lo: "2 ^ nat (bitlen \<lfloor>x\<rfloor> - 1) \<le> \<lfloor>x\<rfloor>" and hi: "\<lfloor>x\<rfloor> < 2 ^ nat (bitlen \<lfloor>x\<rfloor>)"
    by simp_all
  from p have b: "1 \<le> bitlen \<lfloor>x\<rfloor>" by (simp add: bitlen_ge_iff_power)
  from lo have "real_of_int (2 ^ nat (bitlen \<lfloor>x\<rfloor> - 1)) \<le> x"
    by (simp only: le_floor_iff)
  then have l: "2 ^ nat (bitlen \<lfloor>x\<rfloor> - 1) \<le> x" by simp
  from hi have "x < real_of_int (2 ^ nat (bitlen \<lfloor>x\<rfloor>))"
    by (simp only: floor_less_iff)
  then have h: "x < 2 ^ nat (bitlen \<lfloor>x\<rfloor>)" by simp
  from l h b True show ?thesis by (simp add: ilog2_def pow2_def)
next
  case False
  with assms have y: "1 < 1 / x" by simp
  define M where "M = \<lceil>1 / x\<rceil> - 1"
  from y have "2 \<le> \<lceil>1 / x\<rceil>" by (simp add: le_ceiling_iff) 
  then have p: "0 < M" by (simp add: M_def)
  from bitlen_bounds [OF p] have
    lo: "2 ^ nat (bitlen M - 1) \<le> M" and hi: "M < 2 ^ nat (bitlen M)"
    by simp_all
  from p have b: "1 \<le> bitlen M" by (simp add: bitlen_ge_iff_power)
  have my: "real_of_int M < 1 / x" "1 / x \<le> real_of_int M + 1"
    unfolding M_def by linarith+
  from hi have "M + 1 \<le> 2 ^ nat (bitlen M)" by simp
  then have "real_of_int (M + 1) \<le> real_of_int (2 ^ nat (bitlen M))"
    by (simp only: of_int_le_iff)
  then have "real_of_int M + 1 \<le> 2 ^ nat (bitlen M)" by simp
  with my(2) have "1 / x \<le> 2 ^ nat (bitlen M)" by (rule order_trans)
  with assms have l: "1 / 2 ^ nat (bitlen M) \<le> x"
    by (simp add: field_simps)
  have "(2::real) ^ nat (bitlen M - 1) = real_of_int (2 ^ nat (bitlen M - 1))" by simp
  also from lo have "\<dots> \<le> real_of_int M" by (simp only: of_int_le_iff)
  also note my(1)
  finally have "2 ^ nat (bitlen M - 1) < 1 / x" .
  with assms have h: "x < 1 / 2 ^ nat (bitlen M - 1)"
    by (simp add: field_simps)
  have e: "nat (- (1 - bitlen M)) = nat (bitlen M - 1)" by simp
  show ?thesis
  proof (cases "bitlen M = 1")
    case True
    with l h False show ?thesis by (simp add: ilog2_def pow2_def M_def [symmetric])
  next
    case False
    with b have "1 < bitlen M" by simp
    with l h \<open>\<not> 1 \<le> x\<close> show ?thesis
      by (simp add: ilog2_def pow2_def M_def [symmetric] e algebra_simps)
  qed
qed

lemma ilog2_le:
  assumes "0 < x" and "x < 2 ^ Suc N"
  shows "ilog2 x \<le> int N"
proof (cases "1 \<le> x")
  case True
  from assms(2) have "x < real_of_int (2 ^ Suc N)" by simp
  then have "\<lfloor>x\<rfloor> < 2 ^ Suc N" by (simp only: floor_less_iff)
  then have "\<lfloor>x\<rfloor> < 2 ^ nat (int (Suc N))" by (simp only: nat_int)
  then have "bitlen \<lfloor>x\<rfloor> \<le> int (Suc N)" by (simp only: bitlen_le_iff_power) simp
  with True show ?thesis by (simp add: ilog2_def)
next
  case False
  have "0 \<le> bitlen (\<lceil>1 / x\<rceil> - 1)" by (rule bitlen_nonneg)
  with False show ?thesis by (simp add: ilog2_def)
qed



text \<open>Below \<open>2 ^ 53\<close> the doubles are at most 1 apart, so that rounding never crosses an
  integer; below \<open>2 ^ 52\<close> they are at most a half apart.\<close>

lemma round_double_int_bounds:
  assumes "\<bar>x\<bar> < 2 ^ 53"
  shows "(x \<le> real_of_int c \<longrightarrow> round_double x \<le> real_of_int c) \<and>
         (real_of_int c \<le> x \<longrightarrow> real_of_int c \<le> round_double x)"
proof (cases "x = 0")
  case True
  then show ?thesis by (simp add: round_double_def)
next
  case False
  define e where "e = max (ilog2 \<bar>x\<bar> - 52) (- 1074)"
  from False assms have "ilog2 \<bar>x\<bar> \<le> int 52" by (intro ilog2_le) simp_all
  then have e: "e \<le> 0" by (simp add: e_def)
  have rd: "round_double x = real_of_int (round_half_even (x / pow2 e)) * pow2 e"
    using False by (simp add: round_double_def Let_def e_def)
  define K where "K = c * 2 ^ nat (- e)"
  have K: "real_of_int c / pow2 e = real_of_int K"
    unfolding K_def using e by (rule pow2_nonpos)
  then have c: "real_of_int c = real_of_int K * pow2 e"
    using pow2_pos [of e] by (simp add: field_simps)
  have "round_double x \<le> real_of_int c" if "x \<le> real_of_int c"
  proof -
    from that pow2_pos [of e] have "x / pow2 e \<le> real_of_int c / pow2 e"
      by (simp add: divide_right_mono)
    then have "round_half_even (x / pow2 e) \<le> K" unfolding K by (rule round_half_even_le)
    then have "real_of_int (round_half_even (x / pow2 e)) \<le> real_of_int K" by simp
    with pow2_pos [of e] show ?thesis unfolding rd c by simp
  qed
  moreover have "real_of_int c \<le> round_double x" if "real_of_int c \<le> x"
  proof -
    from that pow2_pos [of e] have "real_of_int c / pow2 e \<le> x / pow2 e"
      by (simp add: divide_right_mono)
    then have "K \<le> round_half_even (x / pow2 e)" unfolding K by (rule round_half_even_ge)
    then have "real_of_int K \<le> real_of_int (round_half_even (x / pow2 e))" by simp
    with pow2_pos [of e] show ?thesis unfolding rd c by simp
  qed
  ultimately show ?thesis by blast
qed

lemma round_double_of_int:
  assumes "\<bar>n\<bar> < 2 ^ 53"
  shows "round_double (real_of_int n) = real_of_int n"
proof -
  from assms have "\<bar>real_of_int n\<bar> < 2 ^ 53"
    by (metis of_int_abs of_int_less_numeral_power_cancel_iff)
  from round_double_int_bounds [OF this, of n] show ?thesis by simp
qed

lemma round_double_above_third:
  assumes "\<bar>x\<bar> < 2 ^ 52" and "real_of_int m + 1 / 3 \<le> x"
  shows "real_of_int m < round_double x"
proof (cases "x = 0")
  case True
  with assms(2) have "real_of_int m < 0" by simp
  with True show ?thesis by (simp add: round_double_def)
next
  case False
  define e where "e = max (ilog2 \<bar>x\<bar> - 52) (- 1074)"
  from False assms(1) have "ilog2 \<bar>x\<bar> \<le> int 51" by (intro ilog2_le) simp_all
  then have e: "e \<le> - 1" by (simp add: e_def)
  have rd: "round_double x = real_of_int (round_half_even (x / pow2 e)) * pow2 e"
    using False by (simp add: round_double_def Let_def e_def)
  define K where "K = m * 2 ^ nat (- e)"
  have K: "real_of_int m / pow2 e = real_of_int K"
    unfolding K_def using e by (intro pow2_nonpos) simp
  then have m: "real_of_int m = real_of_int K * pow2 e"
    using pow2_pos [of e] by (simp add: field_simps)
  from e obtain j where j: "nat (- e) = Suc j" by (cases "nat (- e)") simp_all
  have "(2::real) \<le> 2 ^ nat (- e)" unfolding j by simp
  then have two: "2 \<le> 1 / pow2 e" using e by (simp add: pow2_def)
  from assms(2) pow2_pos [of e] have "(real_of_int m + 1 / 3) / pow2 e \<le> x / pow2 e"
    by (simp add: divide_right_mono)
  then have "real_of_int K + (1 / 3) * (1 / pow2 e) \<le> x / pow2 e"
    by (simp add: add_divide_distrib K)
  moreover from two have "2 / 3 \<le> (1 / 3) * (1 / pow2 e)" by simp
  ultimately have "real_of_int K + 1 / 2 < x / pow2 e" by linarith
  then have "K < round_half_even (x / pow2 e)" by (rule round_half_even_gt)
  then have "real_of_int K < real_of_int (round_half_even (x / pow2 e))" by simp
  with pow2_pos [of e] show ?thesis unfolding rd m by simp
qed

text \<open>The test \<^verbatim>\<open>f >= n / 3\<close> of the driver compares the integer with the double nearest
  to the quotient. For sizes below \<open>2 ^ 53\<close> this decides the exact inequality.\<close>

lemma third_test_exact:
  assumes "\<bar>n\<bar> < 2 ^ 53"
  shows "round_double (real_of_int n / 3) \<le> real_of_int f \<longleftrightarrow>
           real_of_int n / 3 \<le> real_of_int f"
proof -
  from assms have n: "\<bar>real_of_int n\<bar> < 2 ^ 53"
    by (metis of_int_abs of_int_less_numeral_power_cancel_iff)
  then have x53: "\<bar>real_of_int n / 3\<bar> < 2 ^ 53" and x52: "\<bar>real_of_int n / 3\<bar> < 2 ^ 52"
    by simp_all
  show ?thesis
  proof
    assume "real_of_int n / 3 \<le> real_of_int f"
    with round_double_int_bounds [OF x53, of f]
    show "round_double (real_of_int n / 3) \<le> real_of_int f" by simp
  next
    assume le: "round_double (real_of_int n / 3) \<le> real_of_int f"
    show "real_of_int n / 3 \<le> real_of_int f"
    proof (rule ccontr)
      assume "\<not> real_of_int n / 3 \<le> real_of_int f"
      then have "real_of_int (3 * f) < real_of_int n" by simp
      then have "3 * f < n" by (simp only: of_int_less_iff)
      then have "3 * f + 1 \<le> n" by simp
      then have "real_of_int (3 * f + 1) \<le> real_of_int n" by (simp only: of_int_le_iff)
      then have "real_of_int f + 1 / 3 \<le> real_of_int n / 3" by simp
      from round_double_above_third [OF x52 this] le show False by simp
    qed
  qed
qed

lemma to_double_small:
  assumes "\<bar>x\<bar> < 2 ^ 53"
  shows "to_double x = Inr (round_double x)"
proof -
  from assms have "x \<le> real_of_int (2 ^ 53)" "real_of_int (- (2 ^ 53)) \<le> x" by simp_all
  with round_double_int_bounds [OF assms, of "2 ^ 53"]
    round_double_int_bounds [OF assms, of "- (2 ^ 53)"]
  have "round_double x \<le> real_of_int (2 ^ 53)" "real_of_int (- (2 ^ 53)) \<le> round_double x"
    by blast+
  then have "\<bar>round_double x\<bar> \<le> 2 ^ 53" by simp
  also have "(2::real) ^ 53 < 2 ^ 1024" by simp
  finally show ?thesis by (simp add: to_double_def)
qed

lemma float_of_int_small:
  assumes "\<bar>n\<bar> < 2 ^ 53"
  shows "float_of_int n = Inr (real_of_int n)"
proof -
  from assms have "\<bar>real_of_int n\<bar> < 2 ^ 53"
    by (metis of_int_abs of_int_less_numeral_power_cancel_iff)
  from to_double_small [OF this] round_double_of_int [OF assms] show ?thesis
    by (simp add: float_of_int_def)
qed

lemma py_truediv_three:
  assumes "\<bar>n\<bar> < 2 ^ 53"
  shows "py_truediv n 3 = Inr (round_double (real_of_int n / 3))"
proof -
  from assms have "\<bar>real_of_int n\<bar> < 2 ^ 53"
    by (metis of_int_abs of_int_less_numeral_power_cancel_iff)
  then have "\<bar>real_of_int n / 3\<bar> < 2 ^ 53" by simp
  from to_double_small [OF this] show ?thesis by (simp add: py_truediv_def)
qed


lemma beyond_bound_exact:
  assumes "\<bar>n\<bar> < 2 ^ 53"
  shows "beyond_bound f n = Inr (real_of_int n / 3 \<le> real_of_int f)"
  by (simp add: beyond_bound_def py_truediv_three [OF assms] third_test_exact [OF assms])



subsection \<open>The experiment driver\<close>









subsection \<open>A configuration in which no trial converges\<close>

lemma sum_convergence_rounds_none:
  assumes "filter converged trs = []"
  shows "sum_convergence_rounds trs acc = Inr acc"
  using assms by (induction trs arbitrary: acc) (simp_all split: if_splits)

lemma aggregate_none_converged:
  assumes "filter converged trs = []"
  shows "aggregate n f f_ratio k trials trs = Inl ZeroDivisionError"
  by (simp add: aggregate_def sum_convergence_rounds_none [OF assms] assms)

lemma lonely_round:
  assumes "lonely net"
  shows "\<exists>net'. run_round H net w = Inr (False, net', w) \<and> lonely net'"
proof -
  from assms obtain a where
    n: "n_agents net = 1" "fanout net = 0" "convergence_round net = None" and
    a: "agents net = [a]" "agent_id a = 0" "\<not> is_byzantine a"
      "view_ne (local_view a) (ledger_view net)"
    by (auto simp: lonely_def)
  let ?net1 = "net\<lparr>round_num := round_num net + 1\<rparr>"
  have others: "filter (\<lambda>i. i \<noteq> 0) (py_range 1) = ([] :: int list)"
    by (simp add: py_range_def)
  have sp: "select_peers ?net1 0 w = Inr ([], w)"
    by (simp add: select_peers_def Let_def n others random_sample_def)
  have byz: "\<not> is_byzantine (a\<lparr>peers := []\<rparr>)"
    using a(3) by (simp add: is_byzantine_def)
  have el: "emit_loop H ?net1 (agents net) ([], total_messages net, w) =
              Inr ([a\<lparr>peers := []\<rparr>], [], total_messages net, w)"
    by (simp add: a(1,2) sp Let_def byz)
  define net2 where "net2 = ?net1\<lparr>agents := [a\<lparr>peers := []\<rparr>], total_messages := total_messages net\<rparr>"
  have e: "emit_phase H net w = Inr (net2, [], w)"
    by (simp add: emit_phase_def Let_def el net2_def)
  have ah: "\<not> all_honest_at_ledger net2"
    using a(3,4) by (simp add: all_honest_at_ledger_def net2_def is_byzantine_def)
  have r: "run_round H net w = Inr (False, net2, w)"
    by (simp add: run_round_def e check_convergence_eq ah)
  have "lonely net2"
    using n a by (auto simp: lonely_def net2_def is_byzantine_def)
  with r show ?thesis by blast
qed

lemma lonely_round_loop:
  assumes "lonely net"
  shows "\<exists>net'. round_loop H k net w = Inr (net', w) \<and> lonely net'"
  using assms
proof (induction k arbitrary: net)
  case 0
  then show ?case by simp
next
  case (Suc k)
  from lonely_round [OF Suc.prems] obtain n1 where
    r: "run_round H net w = Inr (False, n1, w)" and l: "lonely n1" by blast
  from Suc.IH [OF l] r show ?case by simp
qed

lemma lonely_not_converged:
  assumes "lonely net"
  shows "\<exists>stats net'. run_until_convergence H net max_rounds w = Inr (stats, net', w) \<and>
           \<not> converged stats"
proof -
  from lonely_round_loop [OF assms] obtain net' where
    rl: "round_loop H (nat max_rounds) net w = Inr (net', w)" and l: "lonely net'" by blast
  from l have "n_agents net' = 1" "convergence_round net' = None"
    by (simp_all add: lonely_def)
  then show ?thesis
    by (simp add: run_until_convergence_def rl get_statistics_def Let_def)
qed

lemma randint_bounds:
  assumes "a \<le> b" and "randint a b w = (v, w')"
  shows "a \<le> v \<and> v \<le> b"
proof -
  from assms(1) have "0 < b - a + 1" by simp
  then have "0 \<le> int (fst (rand_draw w)) mod (b - a + 1)"
    "int (fst (rand_draw w)) mod (b - a + 1) < b - a + 1"
    by (rule pos_mod_sign, rule pos_mod_bound)
  moreover from assms(2) have "v = a + int (fst (rand_draw w)) mod (b - a + 1)"
    by (auto simp: randint_def split: prod.splits)
  ultimately show ?thesis by linarith
qed

lemma initialize_views_stale:
  assumes "initialize_views H d as w = (as', w')"
  shows "\<forall>a \<in> set as'. \<not> is_byzantine a \<longrightarrow>
           (\<exists>v. local_view a = Some v \<and> 5 \<le> version v \<and> version v \<le> 9)"
  using assms
proof (induction as arbitrary: w as')
  case Nil
  then show ?case by simp
next
  case (Cons a rest)
  show ?case
  proof (cases "is_byzantine a")
    case True
    with Cons.prems obtain w2 rest' v where
      "initialize_views H d rest w2 = (rest', w')" and "as' = a\<lparr>local_view := Some v\<rparr> # rest'"
      by (auto split: prod.splits)
    with Cons.IH True show ?thesis by (auto simp: is_byzantine_def)
  next
    case False
    obtain sv w1 where ri: "randint 5 9 w = (sv, w1)" by (cases "randint 5 9 w")
    from randint_bounds [OF _ ri] have b: "5 \<le> sv" "sv \<le> 9" by simp_all
    from False Cons.prems ri obtain w2 rest' v where
      "initialize_views H d rest w2 = (rest', w')" and
      "as' = a\<lparr>local_view := Some v\<rparr> # rest'" and "version v = sv"
      by (auto split: prod.splits)
    with Cons.IH b show ?thesis by auto
  qed
qed

lemma init_stale:
  assumes "init H n f k d w = Inr (net, w')"
  shows "version (ledger_view net) = 10 \<and>
         (\<forall>a \<in> set (agents net). \<not> is_byzantine a \<longrightarrow>
            (\<exists>v. local_view a = Some v \<and> 5 \<le> version v \<and> version v \<le> 9))"
proof -
  from assms obtain byzantine_ids w1 where
    rs: "random_sample (py_range n) f w = Inr (byzantine_ids, w1)"
    by (auto simp: init_def split: sum.splits)
  define fresh where "fresh = map (\<lambda>i. \<lparr>agent_id = i,
                  agent_type = (if i \<in> set byzantine_ids then BYZANTINE else HONEST),
                  local_view = None, peers = [], messages_sent = 0,
                  messages_received = 0, ledger_queries = 0\<rparr>) (py_range n)"
  obtain t w2 where t: "time_time w1 = (t, w2)" by (cases "time_time w1")
  obtain ags w3 where iv: "initialize_views H d fresh w2 = (ags, w3)"
    by (cases "initialize_views H d fresh w2")
  note iv' = iv [unfolded fresh_def]
  from assms have "Inr (\<lparr>n_agents = n, f_byzantine = f, fanout = min k (n - 1),
        net_did = d, agents = ags,
        ledger_view = \<lparr>did = d, version = 10, doc_hash = H ''ledger_doc_v10'', timestamp = t\<rparr>,
        round_num = 0, total_messages = 0, total_ledger_queries = 0,
        convergence_round = None\<rparr>, w3) = (Inr (net, w') :: error + Network \<times> world)"
    unfolding init_def Let_def rs sum.case prod.case t iv' .
  then have net: "net = \<lparr>n_agents = n, f_byzantine = f, fanout = min k (n - 1),
        net_did = d, agents = ags,
        ledger_view = \<lparr>did = d, version = 10, doc_hash = H ''ledger_doc_v10'', timestamp = t\<rparr>,
        round_num = 0, total_messages = 0, total_ledger_queries = 0,
        convergence_round = None\<rparr>"
    by simp
  from initialize_views_stale [OF iv] show ?thesis
    by (simp add: net)
qed

lemma init_lonely:
  assumes "0 \<le> k"
  shows "\<exists>net w'. init H 1 0 k d w = Inr (net, w') \<and> lonely net"
proof -
  obtain net w' where i: "init H 1 0 k d w = Inr (net, w')"
    using init_succeeds [of 0 1 H k d w] by auto
  from init_Inr [OF i] obtain ids w1 where
    f: "n_agents net = 1" "fanout net = min k (1 - 1)" "convergence_round net = None" and
    id: "map agent_id (agents net) = py_range 1" and
    rs: "random_sample (py_range 1) 0 w = Inr (ids, w1)" and
    ty: "map agent_type (agents net) =
           map (\<lambda>i. if i \<in> set ids then BYZANTINE else HONEST) (py_range 1)"
    by auto
  from random_sample_Inr [OF rs] have "ids = []" by simp
  have r1: "py_range 1 = [0]" by (simp add: py_range_def)
  from id obtain a where a: "agents net = [a]" "agent_id a = 0"
    unfolding r1 by auto
  from ty have hon: "\<not> is_byzantine a"
    by (simp add: a r1 \<open>ids = []\<close> is_byzantine_def)
  from init_stale [OF i] hon obtain v where
    "version (ledger_view net) = 10" "local_view a = Some v" "version v \<le> 9"
    by (auto simp: a)
  then have "view_ne (local_view a) (ledger_view net)"
    by (simp add: view_ne_def view_eq_def)
  with f a hon assms have "lonely net"
    by (simp add: lonely_def)
  with i show ?thesis by blast
qed

text \<open>
  Claim C4 against the code. One agent, no Byzantine agent: the fanout is capped at 0, the
  honest agent starts below version 10 and never receives a message, so no trial
  converges. The aggregation then divides the empty sum by the length of the empty list
  of converged trials, and the driver raises ZeroDivisionError instead of reporting an
  absent mean; the means of messages and queries are never reached.
\<close>

theorem run_experiment_none_converged_raises:
  "run_experiment H [1] [0] 5 1 w = Inl ZeroDivisionError"
proof -
  have "float_of_int 1 = Inr (real_of_int 1)" by (rule float_of_int_small) simp
  moreover have "float_mul 1 0 = Inr 0"
    by (simp add: float_mul_def to_double_def round_double_def)
  ultimately have bc: "byzantine_count 1 0 = Inr 0"
    by (simp add: byzantine_count_def py_int_def)
  have "beyond_bound 0 1 = Inr (real_of_int 1 / 3 \<le> real_of_int 0)"
    by (rule beyond_bound_exact) simp
  then have bb: "beyond_bound 0 1 = Inr False" by simp
  obtain net w1 where i: "init H 1 0 5 ''did:example:123'' w = Inr (net, w1)" and
    l: "lonely net"
    using init_lonely [of 5 H "''did:example:123''" w] by auto
  from lonely_not_converged [OF l] obtain stats net' where
    ru: "run_until_convergence H net 50 w1 = Inr (stats, net', w1)" and
    nc: "\<not> converged stats"
    by blast
  have tl: "trial_loop H 1 0 5 (py_range 1) ([], w) = Inr ([stats\<lparr>trial := Some 0\<rparr>], w1)"
    by (simp add: py_range_def i ru)
  have "filter converged [stats\<lparr>trial := Some 0\<rparr>] = []"
    using nc by simp
  from aggregate_none_converged [OF this]
  have "run_config H 1 0 5 1 w = Inl ZeroDivisionError"
    by (simp add: run_config_def bc bb tl)
  then show ?thesis
    by (simp add: run_experiment_def)
qed

subsection \<open>One more round on a converged session\<close>

lemma handle_summary_agreeing:
  assumes "local_view rcv = Some lv" and "view m = Some sv" and "view_eq sv L" and "view_eq lv L"
  shows "handle_summary net rcv m w =
           Inr (rcv\<lparr>messages_received := messages_received rcv + 1\<rparr>, net, w)"
proof (cases "is_byzantine rcv")
  case True
  then show ?thesis by (rule handle_summary_byzantine)
next
  case False
  from assms(3,4) have "version sv = version lv" "doc_hash sv = doc_hash lv"
    by (simp_all add: view_eq_def)
  then show ?thesis
    unfolding handle_summary_honest [OF False assms(2,1)] by simp
qed

lemma deliver_loop_agreeing:
  assumes "deliver_loop ms (net, w) = Inr (net', w')"
    and "\<forall>m \<in> set ms. \<exists>sv. view m = Some sv \<and> view_eq sv L"
    and "\<forall>a \<in> set (agents net). \<exists>lv. local_view a = Some lv \<and> view_eq lv L"
  shows "map local_view (agents net') = map local_view (agents net) \<and>
         map ledger_queries (agents net') = map ledger_queries (agents net) \<and>
         total_ledger_queries net' = total_ledger_queries net \<and> w' = w"
  using assms
proof (induction ms arbitrary: net)
  case Nil
  then show ?case by simp
next
  case (Cons m ms)
  from Cons.prems(1) obtain i where i: "py_index (agents net) (receiver m) = Inr i"
    by (auto split: sum.splits)
  then have il: "i < length (agents net)" by (rule py_index_Inr)
  then have mem: "agents net ! i \<in> set (agents net)" by simp
  with Cons.prems(3) obtain lv where lv: "local_view (agents net ! i) = Some lv" "view_eq lv L"
    by blast
  from Cons.prems(2) obtain sv where sv: "view m = Some sv" "view_eq sv L"
    by auto
  define r' where "r' = (agents net ! i)\<lparr>messages_received := messages_received (agents net ! i) + 1\<rparr>"
  have h: "handle_summary net (agents net ! i) m w = Inr (r', net, w)"
    unfolding r'_def using lv(1) sv lv(2) by (rule handle_summary_agreeing)
  define n2 where "n2 = net\<lparr>agents := (agents net)[i := r']\<rparr>"
  from Cons.prems(1) i h have rest: "deliver_loop ms (n2, w) = Inr (net', w')"
    by (simp add: n2_def)
  have a2: "agents n2 = (agents net)[i := r']" by (simp add: n2_def)
  have v2: "map local_view (agents n2) = map local_view (agents net)"
    unfolding a2 using il by (simp add: map_update r'_def list_update_same_conv)
  have q2: "map ledger_queries (agents n2) = map ledger_queries (agents net)"
    unfolding a2 using il by (simp add: map_update r'_def list_update_same_conv)
  have inv: "\<forall>a \<in> set (agents n2). \<exists>lv. local_view a = Some lv \<and> view_eq lv L"
  proof
    fix a assume "a \<in> set (agents n2)"
    then have "a \<in> insert r' (set (agents net))"
      unfolding a2 using set_update_subset_insert by fast
    moreover have "\<exists>lv. local_view r' = Some lv \<and> view_eq lv L"
      using lv by (simp add: r'_def)
    ultimately show "\<exists>lv. local_view a = Some lv \<and> view_eq lv L"
      using Cons.prems(3) by auto
  qed
  from Cons.prems(2) have "\<forall>m \<in> set ms. \<exists>sv. view m = Some sv \<and> view_eq sv L" by simp
  moreover have "total_ledger_queries n2 = total_ledger_queries net" by (simp add: n2_def)
  ultimately show ?case
    using Cons.IH [OF rest _ inv] by (simp add: v2 q2)
qed

lemma emit_loop_queries:
  assumes "emit_loop H net as (rm, tm, w) = Inr (as', rm', tm', w')"
  shows "map ledger_queries as' = map ledger_queries as"
  using assms
proof (induction as arbitrary: rm tm w as')
  case Nil
  then show ?case by simp
next
  case (Cons a rest)
  from Cons.prems obtain ps w1 msg w2 rest' where
    rec: "emit_loop H net rest (rm @ map (msg_copy msg) ps, tm + int (length ps), w2) =
       Inr (rest', rm', tm', w')" and
    as': "as' = a\<lparr>peers := ps, messages_sent := messages_sent a + int (length ps)\<rparr> # rest'"
    by (rule emit_loop_step)
  from Cons.IH [OF rec] show ?case by (simp add: as')
qed

lemma run_round_all_honest_converged:
  assumes "all_honest_at_ledger net" and "\<forall>a \<in> set (agents net). \<not> is_byzantine a"
    and "run_round H net w = Inr (c, net', w')"
  shows "map local_view (agents net') = map local_view (agents net) \<and>
         map ledger_queries (agents net') = map ledger_queries (agents net) \<and>
         total_ledger_queries net' = total_ledger_queries net"
proof -
  let ?L = "ledger_view net"
  from assms(1,2) have at: "\<forall>a \<in> set (agents net). \<exists>lv. local_view a = Some lv \<and> view_eq lv ?L"
    by (auto simp: all_honest_at_ledger_def view_ne_def split: option.splits)
  from assms(3) obtain net2 rm w1 net3 where
    e: "emit_phase H net w = Inr (net2, rm, w1)" and
    d: "deliver_loop rm (net2, w1) = Inr (net3, w')" and
    cc: "check_convergence net3 = (c, net')"
    by (rule run_round_Inr)
  let ?net1 = "net\<lparr>round_num := round_num net + 1\<rparr>"
  from e obtain ags tm where
    el: "emit_loop H ?net1 (agents ?net1) ([], total_messages ?net1, w) = Inr (ags, rm, tm, w1)" and
    n2: "net2 = ?net1\<lparr>agents := ags, total_messages := tm\<rparr>"
    by (auto simp: emit_phase_def Let_def split: sum.splits)
  from emit_loop_queries [OF el] have q2: "map ledger_queries (agents net2) = map ledger_queries (agents net)"
    by (simp add: n2)
  from emit_phase_Inr [OF e] have
    same: "list_all2 (\<lambda>a a'. agent_id a' = agent_id a \<and> agent_type a' = agent_type a \<and>
                        local_view a' = local_view a) (agents net) (agents net2)" and
    t2: "total_ledger_queries net2 = total_ledger_queries net" and
    msgs: "\<forall>m \<in> set rm. 0 \<le> receiver m \<and> receiver m < n_agents net \<and>
            (\<exists>a \<in> set (agents net). sender m = agent_id a \<and>
               ((is_byzantine a \<and> view m \<noteq> None) \<or> view m = local_view a))"
    by simp_all
  from same have v2: "map local_view (agents net2) = map local_view (agents net)"
    by (induction rule: list_all2_induct) simp_all
  have at2: "\<forall>a \<in> set (agents net2). \<exists>lv. local_view a = Some lv \<and> view_eq lv ?L"
  proof
    fix a assume "a \<in> set (agents net2)"
    then have "local_view a \<in> set (map local_view (agents net2))" by simp
    then obtain b where "b \<in> set (agents net)" "local_view b = local_view a"
      unfolding v2 by auto
    with at show "\<exists>lv. local_view a = Some lv \<and> view_eq lv ?L" by metis
  qed
  have ms: "\<forall>m \<in> set rm. \<exists>sv. view m = Some sv \<and> view_eq sv ?L"
  proof
    fix m assume "m \<in> set rm"
    with msgs assms(2) obtain a where "a \<in> set (agents net)" "view m = local_view a"
      by blast
    with at show "\<exists>sv. view m = Some sv \<and> view_eq sv ?L" by metis
  qed
  from deliver_loop_agreeing [OF d ms at2] have
    "map local_view (agents net3) = map local_view (agents net2)"
    "map ledger_queries (agents net3) = map ledger_queries (agents net2)"
    "total_ledger_queries net3 = total_ledger_queries net2"
    by simp_all
  moreover from cc have "agents net' = agents net3"
    "total_ledger_queries net' = total_ledger_queries net3"
    unfolding check_convergence_eq by (auto split: if_splits)
  ultimately show ?thesis by (simp add: v2 q2 t2)
qed

text \<open>
  Claim C8, as the code has it. When every honest agent holds a view equal to the
  ledger's, one more round reports convergence, leaves the convergence round set, and
  leaves every honest agent with a view equal, under the equality of views, to the one
  it held: subject, version and digest stay. When no agent is Byzantine nothing escalates:
  every local view, timestamp included, and every query counter is literally unchanged.
\<close>

theorem idempotent_convergence:
  assumes "all_honest_at_ledger net" and "run_round H net w = Inr (c, net', w')"
  shows "c \<and> convergence_round net' \<noteq> None \<and>
         (\<forall>i < length (agents net). \<not> is_byzantine (agents net ! i) \<longrightarrow>
            (\<exists>v v'. local_view (agents net ! i) = Some v \<and>
                     local_view (agents net' ! i) = Some v' \<and> view_eq v' v)) \<and>
         ((\<forall>a \<in> set (agents net). \<not> is_byzantine a) \<longrightarrow>
            map local_view (agents net') = map local_view (agents net) \<and>
            map ledger_queries (agents net') = map ledger_queries (agents net) \<and>
            total_ledger_queries net' = total_ledger_queries net)"
proof -
  from run_round_effect [OF assms(2)] have
    a: "list_all2 (adopts (ledger_view net)) (agents net) (agents net')" and
    L: "ledger_view net' = ledger_view net" and
    c: "c = all_honest_at_ledger net'" and
    cr: "convergence_round net' =
           (case convergence_round net of Some r \<Rightarrow> Some r
            | None \<Rightarrow> if c then Some (round_num net + 1) else None)"
    by simp_all
  from assms(1) a L have conv: "all_honest_at_ledger net'"
    by (rule all_honest_at_ledger_step)
  with c have "c" by simp
  moreover from cr \<open>c\<close> have "convergence_round net' \<noteq> None"
    by (simp split: option.splits)
  moreover have "\<exists>v v'. local_view (agents net ! i) = Some v \<and>
                     local_view (agents net' ! i) = Some v' \<and> view_eq v' v"
    if i: "i < length (agents net)" and h: "\<not> is_byzantine (agents net ! i)" for i
  proof -
    from i have "agents net ! i \<in> set (agents net)" by simp
    with assms(1) h have "\<not> view_ne (local_view (agents net ! i)) (ledger_view net)"
      unfolding all_honest_at_ledger_def by blast
    then obtain v where
      v: "local_view (agents net ! i) = Some v" "view_eq v (ledger_view net)"
      by (auto simp: view_ne_def split: option.splits)
    from a i have "adopts (ledger_view net) (agents net ! i) (agents net' ! i)"
      by (simp add: list_all2_conv_all_nth)
    with v obtain v' where "local_view (agents net' ! i) = Some v'" "view_eq v' (ledger_view net)"
      by (auto simp: adopts_def)
    with v show ?thesis by (auto simp: view_eq_def)
  qed
  moreover have "map local_view (agents net') = map local_view (agents net) \<and>
            map ledger_queries (agents net') = map ledger_queries (agents net) \<and>
            total_ledger_queries net' = total_ledger_queries net"
    if "\<forall>a \<in> set (agents net). \<not> is_byzantine a"
    using assms(1) that assms(2) by (rule run_round_all_honest_converged)
  ultimately show ?thesis by blast
qed

lemma ex_quiet_round_runs: "run_round demo_hash ex_quiet demo_world = Inr ex_quiet_round"
proof -
  have "\<not> isl (run_round demo_hash ex_quiet demo_world)" by code_simp
  then show ?thesis
    by (cases "run_round demo_hash ex_quiet demo_world") (simp_all add: ex_quiet_round_def)
qed

theorem idempotent_convergence_witness:
  "all_honest_at_ledger (fst (snd ex_round1)) \<and> fst ex_round2 \<and>
   convergence_round (fst (snd ex_round2)) \<noteq> None \<and>
   (\<exists>v v'. local_view (agents (fst (snd ex_round1)) ! 1) = Some v \<and>
            local_view (agents (fst (snd ex_round2)) ! 1) = Some v' \<and> view_eq v' v) \<and>
   all_honest_at_ledger ex_quiet \<and> fst ex_quiet_round \<and>
   map local_view (agents (fst (snd ex_quiet_round))) = map local_view (agents ex_quiet) \<and>
   map ledger_queries (agents (fst (snd ex_quiet_round))) = map ledger_queries (agents ex_quiet) \<and>
   total_ledger_queries (fst (snd ex_quiet_round)) = total_ledger_queries ex_quiet"
proof -
  have a: "all_honest_at_ledger (fst (snd ex_round1))" by code_simp
  have r: "run_round demo_hash (fst (snd ex_round1)) (snd (snd ex_round1)) =
             Inr (fst ex_round2, fst (snd ex_round2), snd (snd ex_round2))"
    by (simp add: ex_round2_runs)
  have i: "1 < length (agents (fst (snd ex_round1)))" by code_simp
  have h: "\<not> is_byzantine (agents (fst (snd ex_round1)) ! 1)" by code_simp
  note t1 = idempotent_convergence [OF a r]
  from t1 have c1: "fst ex_round2" and c2: "convergence_round (fst (snd ex_round2)) \<noteq> None"
    by blast+
  from t1 i h have c3: "\<exists>v v'. local_view (agents (fst (snd ex_round1)) ! 1) = Some v \<and>
            local_view (agents (fst (snd ex_round2)) ! 1) = Some v' \<and> view_eq v' v"
    by blast
  have a': "all_honest_at_ledger ex_quiet" by code_simp
  have r': "run_round demo_hash ex_quiet demo_world =
              Inr (fst ex_quiet_round, fst (snd ex_quiet_round), snd (snd ex_quiet_round))"
    by (simp add: ex_quiet_round_runs)
  have hon: "\<forall>a \<in> set (agents ex_quiet). \<not> is_byzantine a"
    by (simp add: ex_quiet_def ex_fresh_def is_byzantine_def)
  note t2 = idempotent_convergence [OF a' r']
  from t2 have d1: "fst ex_quiet_round" by blast
  from t2 hon have
    d2: "map local_view (agents (fst (snd ex_quiet_round))) = map local_view (agents ex_quiet)" and
    d3: "map ledger_queries (agents (fst (snd ex_quiet_round))) =
           map ledger_queries (agents ex_quiet)" and
    d4: "total_ledger_queries (fst (snd ex_quiet_round)) = total_ledger_queries ex_quiet"
    by blast+
  from a c1 c2 c3 a' d1 d2 d3 d4 show ?thesis by (intro conjI)
qed

text \<open>
  Claim C8 as stated fails. Here every honest agent holds the ledger view, and the round
  still changes the honest agent 1: the Byzantine agent 0 sends it version 10 with a
  digest of its own, the agent escalates, its view is replaced by a copy of the ledger
  view with a new timestamp, and its query counter and the network's grow.
\<close>

theorem idempotent_convergence_counterexample:
  "all_honest_at_ledger ex_conv \<and> \<not> is_byzantine (agents ex_conv ! 1) \<and>
   \<not> isl (run_round demo_hash ex_conv demo_world) \<and>
   local_view (agents ex_conv ! 1) =
     Some \<lparr>did = ''did:example:123'', version = 10, doc_hash = ''ledger_doc_v10'',
           timestamp = 990\<rparr> \<and>
   local_view (agents (fst (snd ex_conv_round)) ! 1) =
     Some \<lparr>did = ''did:example:123'', version = 10, doc_hash = ''ledger_doc_v10'',
           timestamp = 1001\<rparr> \<and>
   local_view (agents (fst (snd ex_conv_round)) ! 1) \<noteq> local_view (agents ex_conv ! 1) \<and>
   ledger_queries (agents ex_conv ! 1) = 0 \<and>
   ledger_queries (agents (fst (snd ex_conv_round)) ! 1) = 1 \<and>
   total_ledger_queries ex_conv = 0 \<and> total_ledger_queries (fst (snd ex_conv_round)) = 2"
  by code_simp

end
